theory Spec2Isabelle
  imports Main
begin

section \<open>Identifiers, values and registrations\<close>

text \<open>
  An identifier is a class object used as a map key. The abstract class \<open>Container\<close> of
  \<open>interfaces.ts\<close> is the one identifier the registry itself refers to; every other
  identifier is a user class. Two different classes may carry the same \<open>name\<close>.
\<close>

datatype ident = Container | Class string

fun name :: "ident \<Rightarrow> string" where
  "name Container = ''Container''"
| "name (Class n) = n"

text \<open>
  A container node is named by its chain of parent links: the root is \<open>[]\<close>, and the
  \<open>k\<close>-th node created in the tree as a child of \<open>parent\<close> is \<open>k # parent\<close>. The
  \<open>parent\<close> field of the source is read-only, and so is the tail of the list.
\<close>

type_synonym scope = "nat list"

text \<open>
  Run-time values. \<open>Obj a\<close> is an object allocated by \<open>new\<close> during resolution (at address
  \<open>a\<close> of the heap), \<open>Ext n\<close> an object built by the caller (a pre-built instance, a mock),
  \<open>Cont c\<close> a container node. The other constructors are the primitive values a factory may
  return.
\<close>

datatype val = Undefined | Null | Bool bool | Num int | Str string | Obj nat | Ext nat | Cont scope

text \<open>JavaScript truthiness, as tested by \<open>if (instance)\<close> and \<open>!instance\<close>.\<close>

fun truthy :: "val \<Rightarrow> bool" where
  "truthy Undefined = False"
| "truthy Null = False"
| "truthy (Bool b) = b"
| "truthy (Num n) = (n \<noteq> 0)"
| "truthy (Str s) = (s \<noteq> [])"
| "truthy (Obj a) = True"
| "truthy (Ext n) = True"
| "truthy (Cont c) = True"

text \<open>
  A constructor is a class: its name, and whether its instances are plain objects, arrays
  (\<open>instanceof Array\<close>) or maps (\<open>instanceof Map\<close>).
\<close>

datatype kind = PlainClass | ArrayClass | MapClass

datatype ctor = Ctor string kind

fun kindOf :: "ctor \<Rightarrow> kind" where
  "kindOf (Ctor n k) = k"

text \<open>
  A factory is a function of the resolving container. Its body is a program that may call
  \<open>container.get\<close> and \<open>new\<close> any number of times, each time continuing with the value it
  received, and finally returns a value.
\<close>

datatype fprog =
    Return val
  | Get ident "val \<Rightarrow> fprog"
  | New ctor "val list" "val \<Rightarrow> fprog"

datatype lifetime = singleton | transient | scoped

datatype collection = ArrayDeps "ident list" | MapDeps "(val \<times> ident) list"

text \<open>
  The type \<open>Registration\<close> of \<open>internal.ts\<close>. An absent \<open>constructor\<close>, \<open>factory\<close> or
  \<open>collectionDependencies\<close> is \<open>None\<close>; an absent \<open>instance\<close> is the value \<open>Undefined\<close>,
  since the source tests that field for truthiness.
\<close>

record registration =
  constructor :: "ctor option"
  factory :: "(val \<Rightarrow> fprog) option"
  instance' :: val
  lifetime :: lifetime
  dependencies :: "ident list"
  ctorDependencies :: "ident list"
  collectionDependencies :: "collection option"

datatype error =
    RegistrationExists string
  | RegistrationNotFound string
  | MissingDependencies string "string list"
  | CircularDependency "string list"
  | InvalidRegistration string

section \<open>Insertion-ordered maps\<close>

text \<open>
  The registration map is a JavaScript \<open>Map\<close>: iteration follows insertion order, \<open>set\<close> on
  a present key replaces the value in place and on an absent key appends. Lookup is
  \<open>map_of\<close>.
\<close>

type_synonym registrations = "(ident \<times> registration) list"

definition has :: "('k \<times> 'v) list \<Rightarrow> 'k \<Rightarrow> bool" where
  "has m k = (k \<in> fst ` set m)"

fun mapSet :: "('k \<times> 'v) list \<Rightarrow> 'k \<Rightarrow> 'v \<Rightarrow> ('k \<times> 'v) list" where
  "mapSet [] k v = [(k, v)]"
| "mapSet ((k', v') # m) k v = (if k' = k then (k, v) # m else (k', v') # mapSet m k v)"

section \<open>The graph validator of \<open>registry.ts\<close>\<close>

subsection \<open>\<open>verifyRegistrations\<close>\<close>

text \<open>
  The inner loop over \<open>config.dependencies\<close>, pushing the name of every dependency that is
  not a key of the map onto \<open>missingDependencies\<close>.
\<close>

fun collectMissing :: "registrations \<Rightarrow> ident list \<Rightarrow> string list \<Rightarrow> string list" where
  "collectMissing registrations [] missingDependencies = missingDependencies"
| "collectMissing registrations (dependency # rest) missingDependencies =
     collectMissing registrations rest
       (if \<not> has registrations dependency then missingDependencies @ [name dependency]
        else missingDependencies)"

text \<open>
  The outer loop over the entries. \<open>missingDependencies\<close> is declared before the loop in the
  source, so it is threaded through the iterations here.
\<close>

fun verifyEntries :: "registrations \<Rightarrow> registrations \<Rightarrow> string list \<Rightarrow> error + unit" where
  "verifyEntries registrations [] missingDependencies = Inr ()"
| "verifyEntries registrations ((i, config) # rest) missingDependencies =
     (let missingDependencies' =
            collectMissing registrations (dependencies config) missingDependencies
      in if length missingDependencies' > 0
         then Inl (MissingDependencies (name i) missingDependencies')
         else verifyEntries registrations rest missingDependencies')"

definition verifyRegistrations :: "registrations \<Rightarrow> error + unit" where
  "verifyRegistrations registrations = verifyEntries registrations registrations []"

subsection \<open>\<open>verifyNoCircularDependencies\<close>\<close>

text \<open>
  \<open>checkCircularDependencies(id, registration, dependencies)\<close>: the third argument of the
  model is what is left of the loop over \<open>registration.dependencies\<close>, the fourth the path
  of names. The recursion has no visited set and may not return; \<open>None\<close> is that case.
\<close>

partial_function (option) checkCircularDependencies ::
  "registrations \<Rightarrow> ident \<Rightarrow> ident list \<Rightarrow> string list \<Rightarrow> (error + unit) option" where
  "checkCircularDependencies registrations i deps path =
     (case deps of
        [] \<Rightarrow> Some (Inr ())
      | dependency # rest \<Rightarrow>
          if i = dependency
          then Some (Inl (CircularDependency ([name i] @ path @ [name i])))
          else (case map_of registrations dependency of
                  Some dependencyRegistration \<Rightarrow>
                    if length (dependencies dependencyRegistration) > 0
                    then Option.bind
                           (checkCircularDependencies registrations i
                              (dependencies dependencyRegistration) (path @ [name dependency]))
                           (\<lambda>r. case r of
                                  Inl e \<Rightarrow> Some (Inl e)
                                | Inr u \<Rightarrow> checkCircularDependencies registrations i rest path)
                    else checkCircularDependencies registrations i rest path
                | None \<Rightarrow> checkCircularDependencies registrations i rest path))"

declare checkCircularDependencies.simps [code]

text \<open>The loop over the entries, each one a starting point with an empty path.\<close>

fun checkEntries :: "registrations \<Rightarrow> registrations \<Rightarrow> (error + unit) option" where
  "checkEntries registrations [] = Some (Inr ())"
| "checkEntries registrations ((i, config) # rest) =
     (case checkCircularDependencies registrations i (dependencies config) [] of
        None \<Rightarrow> None
      | Some (Inl e) \<Rightarrow> Some (Inl e)
      | Some (Inr u) \<Rightarrow> checkEntries registrations rest)"

definition verifyNoCircularDependencies :: "registrations \<Rightarrow> (error + unit) option" where
  "verifyNoCircularDependencies registrations = checkEntries registrations registrations"

section \<open>The container state\<close>

text \<open>
  An object on the heap: its class, the arguments its constructor received, and its
  contents when it is an array (\<open>push\<close>) or a map (\<open>set\<close>).
\<close>

record object =
  classOf :: ctor
  args :: "val list"
  items :: "val list"
  entries :: "(val \<times> val) list"

text \<open>
  One scope tree. Every node of a tree holds a reference to the same registration map, so
  the state has one. \<open>instances c\<close> is the private \<open>instances\<close> map of node \<open>c\<close>, and
  \<open>scopes\<close> lists the nodes created so far.
\<close>

record state =
  registrations :: registrations
  instances :: "scope \<Rightarrow> ident \<rightharpoonup> val"
  scopes :: "scope list"
  heap :: "object list"

text \<open>\<open>new InjectKitContainer(registrations)\<close>: the root, with an empty cache.\<close>

definition newContainer :: "registrations \<Rightarrow> state" where
  "newContainer rs =
     \<lparr> registrations = rs, instances = (\<lambda>c. Map.empty), scopes = [[]], heap = [] \<rparr>"

text \<open>The registration that \<open>build\<close> adds for the container itself.\<close>

definition selfRegistration :: registration where
  "selfRegistration =
     \<lparr> constructor = None, factory = Some (\<lambda>container. Return container),
       instance' = Undefined, lifetime = singleton, dependencies = [],
       ctorDependencies = [], collectionDependencies = None \<rparr>"

text \<open>
  \<open>build\<close>. Its argument is the map of the configurations that the first loop obtains from
  the registration builders (their reflection on constructor parameters is not part of
  the model). The result is the root node and the state of the new tree.
\<close>

definition assemble :: "registrations \<Rightarrow> registrations" where
  "assemble configs =
     (if \<not> has configs Container then mapSet configs Container selfRegistration else configs)"

definition build :: "registrations \<Rightarrow> (error + scope \<times> state) option" where
  "build configs =
     (let registrations = assemble configs
      in case verifyRegistrations registrations of
           Inl e \<Rightarrow> Some (Inl e)
         | Inr u \<Rightarrow>
             (case verifyNoCircularDependencies registrations of
                None \<Rightarrow> None
              | Some (Inl e) \<Rightarrow> Some (Inl e)
              | Some (Inr u') \<Rightarrow> Some (Inr ([], newContainer registrations))))"

section \<open>The container of \<open>container.ts\<close>\<close>

subsection \<open>Results\<close>

text \<open>
  A call either does not return (\<open>None\<close>), throws an error, or returns a value. The state
  is part of both outcomes: an exception does not undo what was written before it.
\<close>

type_synonym 'a result = "((error \<times> state) + ('a \<times> state)) option"

definition ok :: "'a \<Rightarrow> state \<Rightarrow> 'a result" where
  "ok v st = Some (Inr (v, st))"

definition throw :: "error \<Rightarrow> state \<Rightarrow> 'a result" where
  "throw e st = Some (Inl (e, st))"

definition andThen :: "'a result \<Rightarrow> ('a \<Rightarrow> state \<Rightarrow> 'b result) \<Rightarrow> 'b result" where
  "andThen m f =
     (case m of
        None \<Rightarrow> None
      | Some (Inl (e, st)) \<Rightarrow> Some (Inl (e, st))
      | Some (Inr (v, st)) \<Rightarrow> f v st)"

subsection \<open>The instance cache\<close>

text \<open>\<open>this.instances.get(id)\<close> and \<open>container.instances.set(id, instance)\<close>.\<close>

definition cached :: "scope \<Rightarrow> ident \<Rightarrow> state \<Rightarrow> val" where
  "cached this i st = (case instances st this i of None \<Rightarrow> Undefined | Some v \<Rightarrow> v)"

definition setInstance :: "scope \<Rightarrow> ident \<Rightarrow> val \<Rightarrow> state \<Rightarrow> state" where
  "setInstance container i v st =
     st\<lparr>instances := (instances st)(container := (instances st container)(i \<mapsto> v))\<rparr>"

text \<open>\<open>getScopedInstance\<close>: this node's cache, then the parent's while the value is falsy.\<close>

fun getScopedInstance :: "scope \<Rightarrow> ident \<Rightarrow> state \<Rightarrow> val" where
  "getScopedInstance [] i st = cached [] i st"
| "getScopedInstance (k # parent) i st =
     (let inst = cached (k # parent) i st
      in if \<not> truthy inst then getScopedInstance parent i st else inst)"

text \<open>The loop \<open>while (container.parent) container = container.parent\<close>.\<close>

fun rootOf :: "scope \<Rightarrow> scope" where
  "rootOf [] = []"
| "rootOf (k # parent) = rootOf parent"

subsection \<open>\<open>createInstance\<close>\<close>

text \<open>
  \<open>createInstance\<close> calls \<open>this.get\<close> for every dependency, and a factory calls \<open>get\<close> on
  the container it is given. In the functions of this subsection that method is the
  argument \<open>this_get\<close>; \<open>get\<close> below ties the knot.
\<close>

text \<open>\<open>new constructor(...dependencies)\<close>: a fresh object that holds its arguments.\<close>

definition construct :: "ctor \<Rightarrow> val list \<Rightarrow> state \<Rightarrow> val \<times> state" where
  "construct k as st =
     (Obj (length (heap st)),
      st\<lparr>heap := heap st @ [\<lparr>classOf = k, args = as, items = [], entries = []\<rparr>]\<rparr>)"

text \<open>The loop over \<open>registration.ctorDependencies\<close>, pushing each resolved value.\<close>

fun resolveAll ::
  "(ident \<Rightarrow> state \<Rightarrow> val result) \<Rightarrow> ident list \<Rightarrow> val list \<Rightarrow> state \<Rightarrow> val list result" where
  "resolveAll this_get [] resolved st = ok resolved st"
| "resolveAll this_get (dependency # rest) resolved st =
     andThen (this_get dependency st)
       (\<lambda>v st'. resolveAll this_get rest (resolved @ [v]) st')"

text \<open>Running the body of a factory.\<close>

primrec runFactory ::
  "fprog \<Rightarrow> (ident \<Rightarrow> state \<Rightarrow> val result) \<Rightarrow> state \<Rightarrow> val result" where
  "runFactory (Return v) container_get st = ok v st"
| "runFactory (Get i k) container_get st =
     andThen (container_get i st) (\<lambda>v st'. runFactory (k v) container_get st')"
| "runFactory (New c as k) container_get st =
     (case construct c as st of (v, st') \<Rightarrow> runFactory (k v) container_get st')"

text \<open>
  The first stage of \<open>createInstance\<close>: the constructor, else the factory, else the
  pre-built instance, else the error.
\<close>

definition instantiate ::
  "(ident \<Rightarrow> state \<Rightarrow> val result) \<Rightarrow> scope \<Rightarrow> ident \<Rightarrow> registration \<Rightarrow> state \<Rightarrow> val result" where
  "instantiate this_get this i registration st =
     (case constructor registration of
        Some k \<Rightarrow>
          andThen (resolveAll this_get (ctorDependencies registration) [] st)
            (\<lambda>resolved st'. case construct k resolved st' of (v, st'') \<Rightarrow> ok v st'')
      | None \<Rightarrow>
          (case factory registration of
             Some f \<Rightarrow> runFactory (f (Cont this)) this_get st
           | None \<Rightarrow>
               if truthy (instance' registration) then ok (instance' registration) st
               else throw (InvalidRegistration (name i)) st))"

text \<open>\<open>instance instanceof Array\<close> and \<open>instance instanceof Map\<close>.\<close>

definition instanceOf :: "val \<Rightarrow> kind \<Rightarrow> state \<Rightarrow> bool" where
  "instanceOf v k st =
     (case v of
        Obj a \<Rightarrow> a < length (heap st) \<and> kindOf (classOf (heap st ! a)) = k
      | _ \<Rightarrow> False)"

definition push :: "nat \<Rightarrow> val \<Rightarrow> state \<Rightarrow> state" where
  "push a v st =
     (if a < length (heap st)
      then st\<lparr>heap := (heap st)[a := (heap st ! a)\<lparr>items := items (heap st ! a) @ [v]\<rparr>]\<rparr>
      else st)"

definition setEntry :: "nat \<Rightarrow> val \<Rightarrow> val \<Rightarrow> state \<Rightarrow> state" where
  "setEntry a key v st =
     (if a < length (heap st)
      then st\<lparr>heap := (heap st)[a := (heap st ! a)\<lparr>entries := mapSet (entries (heap st ! a)) key v\<rparr>]\<rparr>
      else st)"

fun pushAll ::
  "(ident \<Rightarrow> state \<Rightarrow> val result) \<Rightarrow> nat \<Rightarrow> ident list \<Rightarrow> state \<Rightarrow> unit result" where
  "pushAll this_get a [] st = ok () st"
| "pushAll this_get a (dependency # rest) st =
     andThen (this_get dependency st) (\<lambda>v st'. pushAll this_get a rest (push a v st'))"

fun setAll ::
  "(ident \<Rightarrow> state \<Rightarrow> val result) \<Rightarrow> nat \<Rightarrow> (val \<times> ident) list \<Rightarrow> state \<Rightarrow> unit result" where
  "setAll this_get a [] st = ok () st"
| "setAll this_get a ((key, dependency) # rest) st =
     andThen (this_get dependency st) (\<lambda>v st'. setAll this_get a rest (setEntry a key v st'))"

text \<open>The second stage: the collection dependencies, when the instance is of their shape.\<close>

definition populate ::
  "(ident \<Rightarrow> state \<Rightarrow> val result) \<Rightarrow> registration \<Rightarrow> val \<Rightarrow> state \<Rightarrow> unit result" where
  "populate this_get registration inst st =
     (case collectionDependencies registration of
        None \<Rightarrow> ok () st
      | Some (ArrayDeps ds) \<Rightarrow>
          (case inst of
             Obj a \<Rightarrow> if instanceOf inst ArrayClass st then pushAll this_get a ds st else ok () st
           | _ \<Rightarrow> ok () st)
      | Some (MapDeps kds) \<Rightarrow>
          (case inst of
             Obj a \<Rightarrow> if instanceOf inst MapClass st then setAll this_get a kds st else ok () st
           | _ \<Rightarrow> ok () st))"

text \<open>The third stage: the cache of the root, of this node, or none.\<close>

definition remember :: "scope \<Rightarrow> ident \<Rightarrow> registration \<Rightarrow> val \<Rightarrow> state \<Rightarrow> state" where
  "remember this i registration inst st =
     (case lifetime registration of
        singleton \<Rightarrow> setInstance (rootOf this) i inst st
      | scoped \<Rightarrow> setInstance this i inst st
      | transient \<Rightarrow> st)"

definition createInstance ::
  "(ident \<Rightarrow> state \<Rightarrow> val result) \<Rightarrow> scope \<Rightarrow> ident \<Rightarrow> registration \<Rightarrow> state \<Rightarrow> val result" where
  "createInstance this_get this i registration st =
     andThen (instantiate this_get this i registration st)
       (\<lambda>inst st1.
          andThen (populate this_get registration inst st1)
            (\<lambda>u st2. ok inst (remember this i registration inst st2)))"

subsection \<open>\<open>get\<close>, \<open>createScopedContainer\<close>, \<open>override\<close>\<close>

text \<open>The body of \<open>get\<close>, with the nested calls of \<open>this.get\<close> as an argument.\<close>

definition getBody ::
  "(ident \<Rightarrow> state \<Rightarrow> val result) \<Rightarrow> scope \<Rightarrow> ident \<Rightarrow> state \<Rightarrow> val result" where
  "getBody this_get this i st =
     (case map_of (registrations st) i of
        None \<Rightarrow> throw (RegistrationNotFound (name i)) st
      | Some registration \<Rightarrow>
          if lifetime registration \<noteq> transient \<and> truthy (getScopedInstance this i st)
          then ok (getScopedInstance this i st) st
          else createInstance this_get this i registration st)"

text \<open>
  \<open>get n this id\<close> is \<open>this.get(id)\<close> with at most \<open>n\<close> calls of \<open>get\<close> nested inside one
  another below it; it is \<open>None\<close> when the resolution nests deeper, as it does forever on a
  cyclic graph.
\<close>

fun get :: "nat \<Rightarrow> scope \<Rightarrow> ident \<Rightarrow> state \<Rightarrow> val result" where
  "get 0 this i st = getBody (\<lambda>d st'. None) this i st"
| "get (Suc n) this i st = getBody (\<lambda>d st'. get n this d st') this i st"

text \<open>\<open>new InjectKitContainer(this.registrations, this)\<close>: a new node with an empty cache.\<close>

definition createScopedContainer :: "scope \<Rightarrow> state \<Rightarrow> scope \<times> state" where
  "createScopedContainer this st =
     (let child = length (scopes st) # this
      in (child, st\<lparr>instances := (instances st)(child := Map.empty),
                    scopes := scopes st @ [child]\<rparr>))"

definition override :: "scope \<Rightarrow> ident \<Rightarrow> val \<Rightarrow> state \<Rightarrow> state" where
  "override this i inst st =
     setInstance this i inst
       (st\<lparr>registrations :=
            mapSet (registrations st) i
              \<lparr> constructor = None, factory = None, instance' = inst, lifetime = scoped,
                dependencies = [], ctorDependencies = [], collectionDependencies = None \<rparr>\<rparr>)"

subsection \<open>Sequences of calls\<close>

text \<open>The method \<open>this.get\<close> that \<open>get n this\<close> hands to \<open>createInstance\<close>.\<close>

definition nestedGet :: "nat \<Rightarrow> scope \<Rightarrow> ident \<Rightarrow> state \<Rightarrow> val result" where
  "nestedGet n this = (case n of 0 \<Rightarrow> (\<lambda>d st. None) | Suc k \<Rightarrow> (\<lambda>d st. get k this d st))"

text \<open>\<open>k\<close> calls of \<open>this.get(id)\<close> in a row, collecting what they return.\<close>

fun getTimes :: "nat \<Rightarrow> nat \<Rightarrow> scope \<Rightarrow> ident \<Rightarrow> state \<Rightarrow> val list result" where
  "getTimes n 0 this i st = ok [] st"
| "getTimes n (Suc k) this i st =
     andThen (get n this i st)
       (\<lambda>v st'. andThen (getTimes n k this i st') (\<lambda>vs st''. ok (v # vs) st''))"

text \<open>The value a call returned, and the state it left behind.\<close>

definition returned :: "'a result \<Rightarrow> 'a option" where
  "returned r = (case r of Some (Inr (v, st)) \<Rightarrow> Some v | _ \<Rightarrow> None)"

definition final :: "(error \<times> state) + ('a \<times> state) \<Rightarrow> state" where
  "final x = (case x of Inl (e, st) \<Rightarrow> st | Inr (v, st) \<Rightarrow> st)"

definition stateAfter :: "'a result \<Rightarrow> state option" where
  "stateAfter r = map_option final r"

text \<open>The number of objects on the heap, and an entry of a cache, after a call.\<close>

definition allocated :: "'a result \<Rightarrow> nat option" where
  "allocated r = map_option (\<lambda>st. length (heap st)) (stateAfter r)"

definition cachedAfter :: "'a result \<Rightarrow> scope \<Rightarrow> ident \<Rightarrow> val option option" where
  "cachedAfter r c i = map_option (\<lambda>st. instances st c i) (stateAfter r)"

text \<open>
  The states a program can bring a tree into: \<open>build\<close> creates it, and then nodes are
  asked for instances (a call may throw), scopes are created, and instances are
  overridden. The instance given to \<open>override\<close> is an object (\<open>Instance<T> = T & object\<close>),
  hence truthy.
\<close>

inductive reachable :: "state \<Rightarrow> bool" where
  built: "build configs = Some (Inr (root, st)) \<Longrightarrow> reachable st"
| got: "reachable st \<Longrightarrow> this \<in> set (scopes st) \<Longrightarrow> get n this i st = Some x \<Longrightarrow>
        reachable (final x)"
| scope_created: "reachable st \<Longrightarrow> this \<in> set (scopes st) \<Longrightarrow>
        reachable (snd (createScopedContainer this st))"
| overridden: "reachable st \<Longrightarrow> this \<in> set (scopes st) \<Longrightarrow> truthy inst \<Longrightarrow>
        reachable (override this i inst st)"

section \<open>Notions used in the statements\<close>

text \<open>
  A dependency is unregistered when it is neither a key of the caller's map nor the
  \<open>Container\<close> identifier; an entry is offending when it has such a dependency.
\<close>

definition unregistered :: "registrations \<Rightarrow> ident \<Rightarrow> bool" where
  "unregistered configs d = (\<not> has configs d \<and> d \<noteq> Container)"

definition offending :: "registrations \<Rightarrow> ident \<times> registration \<Rightarrow> bool" where
  "offending configs e = (\<exists>d \<in> set (dependencies (snd e)). unregistered configs d)"

text \<open>A registration is usable when one of its three creation strategies is set.\<close>

definition usable :: "registration \<Rightarrow> bool" where
  "usable r = (constructor r \<noteq> None \<or> factory r \<noteq> None \<or> truthy (instance' r))"

text \<open>A node and its ancestors, in the order \<open>getScopedInstance\<close> visits them.\<close>

fun chain :: "scope \<Rightarrow> scope list" where
  "chain [] = [[]]"
| "chain (k # parent) = (k # parent) # chain parent"

text \<open>
  The first node of the chain whose cache holds a truthy value for the identifier, if
  there is one.
\<close>

definition holder :: "scope \<Rightarrow> ident \<Rightarrow> state \<Rightarrow> scope option" where
  "holder this i st = find (\<lambda>c. truthy (cached c i st)) (chain this)"

text \<open>Every outcome of a call, returned or thrown, leaves a state that satisfies \<open>Q\<close>.\<close>

definition ends :: "'a result \<Rightarrow> (state \<Rightarrow> bool) \<Rightarrow> bool" where
  "ends r Q = (\<forall>x. r = Some x \<longrightarrow> Q (final x))"

text \<open>
  What calls of \<open>get\<close> on node \<open>c\<close> may change: the registrations and the nodes stay, the
  heap does not shrink, and a cache entry changes only for a usable registration, in the
  root when it is a singleton and in \<open>c\<close> when it is scoped.
\<close>

definition frame :: "scope \<Rightarrow> state \<Rightarrow> state \<Rightarrow> bool" where
  "frame c st st' =
     (registrations st' = registrations st \<and> scopes st' = scopes st \<and>
      length (heap st) \<le> length (heap st') \<and>
      (\<forall>c' i. instances st' c' i \<noteq> instances st c' i \<longrightarrow>
         (\<exists>r. map_of (registrations st) i = Some r \<and> usable r \<and>
              ((lifetime r = singleton \<and> c' = []) \<or> (lifetime r = scoped \<and> c' = c)))))"

text \<open>
  Two facts about every reachable state: a singleton is cached in the root only, and a
  truthy cached instance belongs to a usable registration.
\<close>

definition singletonsAtRoot :: "state \<Rightarrow> bool" where
  "singletonsAtRoot st =
     (\<forall>i r c. map_of (registrations st) i = Some r \<and> lifetime r = singleton \<and> c \<noteq> []
        \<longrightarrow> instances st c i = None)"

definition cachedAreUsable :: "state \<Rightarrow> bool" where
  "cachedAreUsable st =
     (\<forall>c i v. instances st c i = Some v \<and> truthy v
        \<longrightarrow> (\<exists>r. map_of (registrations st) i = Some r \<and> usable r))"

text \<open>
  A value is as registered when, for a registration that has neither a constructor nor a
  factory, it is the registered instance. \<open>keeps c st st'\<close>: calls of \<open>get\<close> on node \<open>c\<close>
  led from \<open>st\<close> to \<open>st'\<close>, and every cache entry they wrote is as registered. In every
  reachable state the cached instances of singletons are as registered.
\<close>

definition asRegistered :: "registration \<Rightarrow> val \<Rightarrow> bool" where
  "asRegistered r v = (constructor r = None \<and> factory r = None \<longrightarrow> v = instance' r)"

definition keeps :: "scope \<Rightarrow> state \<Rightarrow> state \<Rightarrow> bool" where
  "keeps c st st' =
     (frame c st st' \<and>
      (\<forall>c' i v. instances st' c' i = Some v \<and> instances st' c' i \<noteq> instances st c' i \<longrightarrow>
         (\<exists>r. map_of (registrations st) i = Some r \<and> asRegistered r v)))"


text \<open>
  Identifiers whose resolution returns. \<open>requests P p\<close>: every identifier the factory body
  \<open>p\<close> may ask for satisfies \<open>P\<close>. An identifier is resolvable with at most \<open>n\<close> nested
  calls when it is registered, a strategy is set, and everything its constructor, its
  factory or its collection asks for is resolvable with at most \<open>n - 1\<close>.
\<close>

primrec requests :: "(ident \<Rightarrow> bool) \<Rightarrow> fprog \<Rightarrow> bool" where
  "requests P (Return v) = True"
| "requests P (Get d k) = (P d \<and> (\<forall>v. requests P (k v)))"
| "requests P (New c as k) = (\<forall>v. requests P (k v))"

definition collectionIds :: "registration \<Rightarrow> ident list" where
  "collectionIds r =
     (case collectionDependencies r of
        None \<Rightarrow> []
      | Some (ArrayDeps ds) \<Rightarrow> ds
      | Some (MapDeps kds) \<Rightarrow> map snd kds)"

definition resolvableWith :: "(ident \<Rightarrow> bool) \<Rightarrow> registrations \<Rightarrow> ident \<Rightarrow> bool" where
  "resolvableWith P rs i =
     (case map_of rs i of
        None \<Rightarrow> False
      | Some r \<Rightarrow>
          (case constructor r of
             Some k \<Rightarrow> list_all P (ctorDependencies r)
           | None \<Rightarrow>
               (case factory r of
                  Some f \<Rightarrow> (\<forall>c. requests P (f c))
                | None \<Rightarrow> truthy (instance' r))) \<and>
          list_all P (collectionIds r))"

fun resolvable :: "registrations \<Rightarrow> nat \<Rightarrow> ident \<Rightarrow> bool" where
  "resolvable rs 0 i = resolvableWith (\<lambda>d. False) rs i"
| "resolvable rs (Suc n) i = resolvableWith (resolvable rs n) rs i"

text \<open>
  A method \<open>g\<close> answers \<open>P\<close> when it returns for every identifier in \<open>P\<close>, from every state
  whose registration map is \<open>rs\<close>.
\<close>

definition answers ::
  "(ident \<Rightarrow> state \<Rightarrow> val result) \<Rightarrow> (ident \<Rightarrow> bool) \<Rightarrow> registrations \<Rightarrow> bool" where
  "answers g P rs =
     (\<forall>d s. P d \<and> registrations s = rs \<longrightarrow> (\<exists>v s'. g d s = Some (Inr (v, s'))))"

text \<open>\<open>g'\<close> returns or throws whatever \<open>g\<close> does, and maybe more.\<close>

definition below ::
  "(ident \<Rightarrow> state \<Rightarrow> val result) \<Rightarrow> (ident \<Rightarrow> state \<Rightarrow> val result) \<Rightarrow> bool" where
  "below g g' = (\<forall>d s x. g d s = Some x \<longrightarrow> g' d s = Some x)"

section \<open>Example registrations\<close>

text \<open>
  What \<open>register(id).useClass(K)\<close> followed by \<open>asSingleton\<close>, \<open>asTransient\<close> or
  \<open>asScoped\<close> yields for a class whose constructor parameters are \<open>ds\<close>.
\<close>

definition useClass :: "string \<Rightarrow> lifetime \<Rightarrow> ident list \<Rightarrow> registration" where
  "useClass n l ds =
     \<lparr> constructor = Some (Ctor n PlainClass), factory = None, instance' = Undefined,
       lifetime = l, dependencies = ds, ctorDependencies = ds,
       collectionDependencies = None \<rparr>"

text \<open>\<open>A\<close> needs \<open>B\<close>, \<open>B\<close> needs \<open>C\<close>, \<open>C\<close> needs \<open>B\<close>, registered in this order.\<close>

definition unrelatedCycle :: registrations where
  "unrelatedCycle =
     [(Class ''A'', useClass ''A'' transient [Class ''B'']),
      (Class ''B'', useClass ''B'' transient [Class ''C'']),
      (Class ''C'', useClass ''C'' transient [Class ''B''])]"

text \<open>The same three registrations, with \<open>B\<close> registered first.\<close>

definition cycleFirst :: registrations where
  "cycleFirst =
     [(Class ''B'', useClass ''B'' transient [Class ''C'']),
      (Class ''C'', useClass ''C'' transient [Class ''B'']),
      (Class ''A'', useClass ''A'' transient [Class ''B''])]"

text \<open>\<open>A\<close> needs \<open>B\<close> and \<open>B\<close> needs \<open>A\<close>.\<close>

definition directCycle :: registrations where
  "directCycle =
     [(Class ''A'', useClass ''A'' transient [Class ''B'']),
      (Class ''B'', useClass ''B'' transient [Class ''A''])]"

text \<open>A service whose constructor takes the container, which the caller does not register.\<close>

definition serviceNeedsContainer :: registrations where
  "serviceNeedsContainer =
     [(Class ''Service'', useClass ''Service'' singleton [Container])]"

text \<open>\<open>Dependent\<close> needs \<open>Missing\<close>, \<open>Simple\<close> and \<open>Missing2\<close>; only \<open>Simple\<close> is registered.\<close>

definition dependentWithoutMissing :: registrations where
  "dependentWithoutMissing =
     [(Class ''Simple'', useClass ''Simple'' singleton []),
      (Class ''Dependent'',
         useClass ''Dependent'' singleton [Class ''Missing'', Class ''Simple'', Class ''Missing2''])]"

definition simpleAndDependent :: registrations where
  "simpleAndDependent =
     [(Class ''Simple'', useClass ''Simple'' singleton []),
      (Class ''Dependent'', useClass ''Dependent'' singleton [Class ''Simple''])]"

text \<open>A registration for which no strategy was chosen, a factory and a pre-built instance.\<close>

definition noStrategy :: registration where
  "noStrategy =
     \<lparr> constructor = None, factory = None, instance' = Undefined, lifetime = transient,
       dependencies = [], ctorDependencies = [], collectionDependencies = None \<rparr>"

definition useFactory :: "(val \<Rightarrow> fprog) \<Rightarrow> lifetime \<Rightarrow> registration" where
  "useFactory f l =
     \<lparr> constructor = None, factory = Some f, instance' = Undefined, lifetime = l,
       dependencies = [], ctorDependencies = [], collectionDependencies = None \<rparr>"

definition useInstance :: "val \<Rightarrow> registration" where
  "useInstance v =
     \<lparr> constructor = None, factory = None, instance' = v, lifetime = singleton,
       dependencies = [], ctorDependencies = [], collectionDependencies = None \<rparr>"

definition unconfigured :: registrations where
  "unconfigured = [(Class ''Unconfigured'', noStrategy)]"

definition customContainer :: registrations where
  "customContainer = [(Container, useInstance (Ext 7))]"

definition dbOnly :: registrations where
  "dbOnly = [(Class ''Db'', useClass ''Db'' singleton [])]"

definition requestOnly :: registrations where
  "requestOnly = [(Class ''Request'', useClass ''Request'' scoped [])]"

text \<open>A singleton whose factory builds a probe and returns \<open>null\<close>.\<close>

definition nullFactory :: "val \<Rightarrow> fprog" where
  "nullFactory container = New (Ctor ''Probe'' PlainClass) [] (\<lambda>probe. Return Null)"

definition nullConfig :: registrations where
  "nullConfig = [(Class ''Config'', useFactory nullFactory singleton)]"

text \<open>
  A scoped registration whose factory returns a string in the root and \<open>null\<close> in every
  other node.
\<close>

definition rootOnlyFactory :: "val \<Rightarrow> fprog" where
  "rootOnlyFactory container = (if container = Cont [] then Return (Str ''root'') else Return Null)"

definition placeConfig :: registrations where
  "placeConfig = [(Class ''Place'', useFactory rootOnlyFactory scoped)]"

definition handlerAndLogger :: registrations where
  "handlerAndLogger =
     [(Class ''Logger'', useClass ''Logger'' singleton []),
      (Class ''Handler'', useClass ''Handler'' transient [Class ''Logger'']),
      (Class ''Token'', useClass ''Token'' transient [])]"

text \<open>A tree with the root and two scopes created from it, \<open>[1]\<close> and \<open>[2]\<close>.\<close>

definition twoScopes :: "state \<Rightarrow> state" where
  "twoScopes st = snd (createScopedContainer [] (snd (createScopedContainer [] st)))"

definition dbTree :: state where
  "dbTree = twoScopes (newContainer (assemble dbOnly))"

definition requestTree :: state where
  "requestTree = twoScopes (newContainer (assemble requestOnly))"

definition nullTree :: state where
  "nullTree = twoScopes (newContainer (assemble nullConfig))"

definition placeTree :: state where
  "placeTree = twoScopes (newContainer (assemble placeConfig))"


definition handlerTree :: state where
  "handlerTree = newContainer (assemble handlerAndLogger)"

text \<open>\<open>dbTree\<close> after scope \<open>[1]\<close> has resolved \<open>Db\<close>.\<close>

definition dbResolved :: state where
  "dbResolved =
     setInstance [] (Class ''Db'') (Obj 0) (snd (construct (Ctor ''Db'' PlainClass) [] dbTree))"


text \<open>\<open>requestTree\<close> after scope \<open>[1]\<close>, and then scope \<open>[2]\<close>, have resolved \<open>Request\<close>.\<close>

definition requestResolved1 :: state where
  "requestResolved1 =
     setInstance [1] (Class ''Request'') (Obj 0)
       (snd (construct (Ctor ''Request'' PlainClass) [] requestTree))"

definition requestResolved2 :: state where
  "requestResolved2 =
     setInstance [2] (Class ''Request'') (Obj 1)
       (snd (construct (Ctor ''Request'' PlainClass) [] requestResolved1))"

text \<open>\<open>nullTree\<close> after the root has resolved \<open>Config\<close>.\<close>

definition nullResolved :: state where
  "nullResolved =
     setInstance [] (Class ''Config'') Null (snd (construct (Ctor ''Probe'' PlainClass) [] nullTree))"

text \<open>\<open>placeTree\<close> after scope \<open>[1]\<close>, and then the root, have resolved \<open>Place\<close>.\<close>

definition placeResolved1 :: state where
  "placeResolved1 = setInstance [1] (Class ''Place'') Null placeTree"

definition placeResolved2 :: state where
  "placeResolved2 = setInstance [] (Class ''Place'') (Str ''root'') placeResolved1"

text \<open>\<open>handlerTree\<close> after the root has resolved \<open>Handler\<close> once and twice.\<close>

definition loggerResolved :: state where
  "loggerResolved =
     setInstance [] (Class ''Logger'') (Obj 0)
       (snd (construct (Ctor ''Logger'' PlainClass) [] handlerTree))"

definition handlerResolved1 :: state where
  "handlerResolved1 = snd (construct (Ctor ''Handler'' PlainClass) [Obj 0] loggerResolved)"

definition handlerResolved2 :: state where
  "handlerResolved2 = snd (construct (Ctor ''Handler'' PlainClass) [Obj 0] handlerResolved1)"

text \<open>The root resolves \<open>Request\<close>, then scope \<open>[1]\<close>, then scope \<open>[2]\<close>.\<close>

definition rootThenSiblings :: "val list result" where
  "rootThenSiblings =
     andThen (get 0 [] (Class ''Request'') requestTree)
       (\<lambda>v0 st1. andThen (get 0 [1] (Class ''Request'') st1)
          (\<lambda>v1 st2. andThen (get 0 [2] (Class ''Request'') st2)
             (\<lambda>v2 st3. ok [v0, v1, v2] st3)))"

section \<open>Properties of the graph validator\<close>

subsection \<open>Insertion-ordered maps\<close>

lemma keys_mapSet: "fst ` set (mapSet m k v) = insert k (fst ` set m)"
  by (induction m) force+

lemma has_mapSet: "has (mapSet m k v) k' \<longleftrightarrow> k' = k \<or> has m k'"
  by (auto simp: has_def keys_mapSet)

lemma map_of_mapSet: "map_of (mapSet m k v) = (map_of m)(k \<mapsto> v)"
  by (induction m) auto

lemma mapSet_fresh: "\<not> has m k \<Longrightarrow> mapSet m k v = m @ [(k, v)]"
  by (induction m) (auto simp: has_def)

lemma has_assemble: "has (assemble configs) d \<longleftrightarrow> has configs d \<or> d = Container"
  by (auto simp: assemble_def has_mapSet)

subsection \<open>Missing dependencies\<close>

lemma collectMissing_eq:
  "collectMissing rs ds acc = acc @ map name (filter (\<lambda>d. \<not> has rs d) ds)"
  by (induction ds arbitrary: acc) auto

text \<open>
  The accumulator is empty whenever an iteration of the outer loop starts, so the error
  names the first entry with a missing dependency and lists the missing ones of that entry.
\<close>

lemma verifyEntries_eq:
  "verifyEntries rs es [] =
     (case find (\<lambda>(i, c). \<exists>d \<in> set (dependencies c). \<not> has rs d) es of
        None \<Rightarrow> Inr ()
      | Some (i, c) \<Rightarrow>
          Inl (MissingDependencies (name i)
                 (map name (filter (\<lambda>d. \<not> has rs d) (dependencies c)))))"
proof (induction es)
  case Nil
  then show ?case by simp
next
  case (Cons e es)
  obtain i c where e: "e = (i, c)" by (cases e)
  show ?case
  proof (cases "\<exists>d \<in> set (dependencies c). \<not> has rs d")
    case True
    then have "filter (\<lambda>d. \<not> has rs d) (dependencies c) \<noteq> []"
      by (auto simp: filter_empty_conv)
    with True show ?thesis by (simp add: e collectMissing_eq Let_def)
  next
    case False
    then have "filter (\<lambda>d. \<not> has rs d) (dependencies c) = []"
      by (auto simp: filter_empty_conv)
    with False Cons.IH show ?thesis by (simp add: e collectMissing_eq Let_def)
  qed
qed

lemma find_assemble:
  "find (\<lambda>(i, c). \<exists>d \<in> set (dependencies c). P d) (assemble configs) =
   find (\<lambda>(i, c). \<exists>d \<in> set (dependencies c). P d) configs"
proof -
  have "find Q (m @ [(k, selfRegistration)]) = find Q m"
    if "\<not> Q (k, selfRegistration)" for Q and m :: registrations and k
    using that by (induction m) auto
  then show ?thesis
    by (simp add: assemble_def mapSet_fresh selfRegistration_def)
qed

text \<open>
  Claim C3, as amended. \<open>build\<close> adds the registration of \<open>Container\<close> before it validates.
  If some entry of the caller's map has a dependency that is neither a key of the map nor
  \<open>Container\<close>, \<open>build\<close> fails with \<open>MissingDependencies\<close>, naming the first such entry in
  registration order and listing all of its missing dependencies, in order; if there is no
  such entry, the missing-dependency check passes.
\<close>

theorem build_reports_all_missing_of_first_offender:
  "(find (offending configs) configs = Some (i, c) \<longrightarrow>
      filter (unregistered configs) (dependencies c) \<noteq> [] \<and>
      build configs =
        Some (Inl (MissingDependencies (name i)
                     (map name (filter (unregistered configs) (dependencies c)))))) \<and>
   (find (offending configs) configs = None \<longrightarrow>
      verifyRegistrations (assemble configs) = Inr ())"
proof -
  have m: "unregistered configs = (\<lambda>d. \<not> has (assemble configs) d)"
    by (auto simp: unregistered_def has_assemble)
  have o: "offending configs = (\<lambda>(i, c). \<exists>d \<in> set (dependencies c). unregistered configs d)"
    by (auto simp: offending_def fun_eq_iff)
  have f: "find (\<lambda>(i, c). \<exists>d \<in> set (dependencies c). \<not> has (assemble configs) d)
             (assemble configs) = find (offending configs) configs"
    unfolding o m by (rule find_assemble)
  show ?thesis
  proof (intro conjI impI)
    assume h: "find (offending configs) configs = Some (i, c)"
    then have "offending configs (i, c)" by (auto simp: find_Some_iff)
    then show "filter (unregistered configs) (dependencies c) \<noteq> []"
      by (auto simp: offending_def filter_empty_conv)
    from h show "build configs =
        Some (Inl (MissingDependencies (name i)
                     (map name (filter (unregistered configs) (dependencies c)))))"
      by (simp add: build_def verifyRegistrations_def verifyEntries_eq f m)
  next
    assume "find (offending configs) configs = None"
    then show "verifyRegistrations (assemble configs) = Inr ()"
      by (simp add: verifyRegistrations_def verifyEntries_eq f)
  qed
qed

theorem build_reports_all_missing_of_first_offender_witness:
  "build dependentWithoutMissing =
     Some (Inl (MissingDependencies ''Dependent'' [''Missing'', ''Missing2''])) \<and>
   verifyRegistrations (assemble simpleAndDependent) = Inr ()"
proof -
  have 1: "find (offending dependentWithoutMissing) dependentWithoutMissing =
      Some (Class ''Dependent'',
            useClass ''Dependent'' singleton [Class ''Missing'', Class ''Simple'', Class ''Missing2''])"
    by (simp add: dependentWithoutMissing_def offending_def unregistered_def has_def useClass_def)
  have 2: "find (offending simpleAndDependent) simpleAndDependent = None"
    by (simp add: simpleAndDependent_def offending_def unregistered_def has_def useClass_def)
  from 1 2
    build_reports_all_missing_of_first_offender [of dependentWithoutMissing "Class ''Dependent''"
      "useClass ''Dependent'' singleton [Class ''Missing'', Class ''Simple'', Class ''Missing2'']"]
    build_reports_all_missing_of_first_offender [of simpleAndDependent]
  show ?thesis
    by (simp add: dependentWithoutMissing_def unregistered_def has_def useClass_def)
qed

text \<open>
  Claim C3 as stated fails: \<open>Container\<close> is a dependency of \<open>Service\<close> and not a key of the
  caller's map, and \<open>build\<close> returns a container.
\<close>

theorem build_accepts_unregistered_Container:
  "\<not> has serviceNeedsContainer Container \<and>
   Container \<in> set (dependencies (useClass ''Service'' singleton [Container])) \<and>
   build serviceNeedsContainer =
     Some (Inr ([], newContainer (serviceNeedsContainer @ [(Container, selfRegistration)])))"
  by (simp add: serviceNeedsContainer_def has_def build_def assemble_def
      verifyRegistrations_def Let_def useClass_def selfRegistration_def
      verifyNoCircularDependencies_def checkCircularDependencies.simps)

subsection \<open>Circular dependencies\<close>

text \<open>
  A walk that starts at \<open>a\<close> and enters a cycle between \<open>b\<close> and \<open>c\<close>, both different from
  \<open>a\<close>, never returns: every dependency is compared with \<open>a\<close> only.
\<close>

lemma checkCircularDependencies_never_returns:
  assumes "a \<noteq> b" "a \<noteq> c"
    and "map_of rs b = Some rb" "dependencies rb = [c]"
    and "map_of rs c = Some rc" "dependencies rc = [b]"
    and "ds = [b] \<or> ds = [c]"
  shows "checkCircularDependencies rs a ds p = None"
proof (cases "checkCircularDependencies rs a ds p")
  case None
  then show ?thesis .
next
  case (Some y)
  have "\<not> (rs = rs \<and> a = a \<and> (ds = [b] \<or> ds = [c]))"
  proof (rule checkCircularDependencies.raw_induct
      [where P = "\<lambda>r i ds p y. \<not> (r = rs \<and> i = a \<and> (ds = [b] \<or> ds = [c]))", OF _ Some],
      goal_cases)
    case (1 f r i ds' p' y')
    show ?case
    proof
      assume h: "r = rs \<and> i = a \<and> (ds' = [b] \<or> ds' = [c])"
      from h 1(2) assms obtain ds'' p'' y''
        where "f rs a ds'' p'' = Some y''" and "ds'' = [b] \<or> ds'' = [c]"
        by (auto simp: Option.bind_eq_Some_conv)
      with 1(1) show False by blast
    qed
  qed
  with assms show ?thesis by simp
qed

text \<open>
  When the walk starts inside the cycle, it is found: with \<open>B\<close> registered first, \<open>build\<close>
  reports the cycle between \<open>B\<close> and \<open>C\<close>.
\<close>

lemma build_reports_cycle_from_inside:
  "build cycleFirst = Some (Inl (CircularDependency [''B'', ''C'', ''B'']))"
  by (simp add: build_def assemble_def has_def verifyRegistrations_def Let_def
      verifyNoCircularDependencies_def cycleFirst_def useClass_def selfRegistration_def
      checkCircularDependencies.simps)

text \<open>
  Claim C1. The claim asks that \<open>build\<close> terminates on every registration map and reports
  the cycle between \<open>B\<close> and \<open>C\<close> when \<open>A\<close> needs \<open>B\<close>, \<open>B\<close> needs \<open>C\<close> and \<open>C\<close> needs \<open>B\<close>.
  On that map the check of the source does not return: there is no result, neither an
  error nor a container.
\<close>

theorem build_unrelated_cycle_never_returns:
  "build unrelatedCycle = None"
  by (simp add: build_def assemble_def has_def verifyRegistrations_def Let_def
      verifyNoCircularDependencies_def unrelatedCycle_def useClass_def selfRegistration_def
      checkCircularDependencies_never_returns [where b = "Class ''B''" and c = "Class ''C''"])

text \<open>
  Claim C4. Registering \<open>a\<close> depending on \<open>b\<close> and \<open>b\<close> depending on \<open>a\<close> makes \<open>build\<close> fail
  with \<open>CircularDependency\<close>, and the path reported is \<open>a\<close>, \<open>b\<close>, \<open>a\<close>: one cycle, with the
  starting identifier repeated at the end.
\<close>

theorem build_reports_direct_cycle:
  "a \<noteq> b \<Longrightarrow> dependencies ra = [b] \<Longrightarrow> dependencies rb = [a] \<Longrightarrow>
   build [(a, ra), (b, rb)] = Some (Inl (CircularDependency [name a, name b, name a]))"
  by (simp add: build_def assemble_def has_def verifyRegistrations_def
      verifyNoCircularDependencies_def checkCircularDependencies.simps Let_def
      selfRegistration_def)

theorem build_reports_direct_cycle_witness:
  "Class ''A'' \<noteq> Class ''B'' \<and>
   build directCycle = Some (Inl (CircularDependency [''A'', ''B'', ''A'']))"
  using build_reports_direct_cycle [of "Class ''A''" "Class ''B''"
      "useClass ''A'' transient [Class ''B'']" "useClass ''B'' transient [Class ''A'']"]
  by (simp add: directCycle_def useClass_def)

section \<open>Properties of the container\<close>

subsection \<open>Results\<close>

lemma andThen_simps [simp]:
  "andThen None f = None"
  "andThen (Some (Inl (e, st))) f = Some (Inl (e, st))"
  "andThen (Some (Inr (v, st))) f = f v st"
  "andThen (ok v st) f = f v st"
  "andThen (throw e st) f = throw e st"
  by (simp_all add: andThen_def ok_def throw_def)

lemma andThen_returns:
  "andThen m f = Some (Inr (v, st')) \<longleftrightarrow>
     (\<exists>w st1. m = Some (Inr (w, st1)) \<and> f w st1 = Some (Inr (v, st')))"
  by (auto simp: andThen_def split: option.splits sum.splits)

lemma andThen_throws:
  "andThen m f = Some (Inl (e, st')) \<longleftrightarrow>
     m = Some (Inl (e, st')) \<or>
     (\<exists>w st1. m = Some (Inr (w, st1)) \<and> f w st1 = Some (Inl (e, st')))"
  by (auto simp: andThen_def split: option.splits sum.splits)

lemma ok_eq [simp]:
  "ok v st = Some (Inr (w, st')) \<longleftrightarrow> v = w \<and> st = st'"
  "ok v st \<noteq> Some (Inl p)"
  "ok v st \<noteq> None"
  by (auto simp: ok_def)

lemma throw_eq [simp]:
  "throw e st = Some (Inl (e', st')) \<longleftrightarrow> e = e' \<and> st = st'"
  "throw e st \<noteq> Some (Inr q)"
  "throw e st \<noteq> None"
  by (auto simp: throw_def)

lemma final_simps [simp]: "final (Inl (e, st)) = st" "final (Inr (v, st)) = st"
  by (simp_all add: final_def)

lemma ends_simps [simp]:
  "ends None Q"
  "ends (ok v st) Q \<longleftrightarrow> Q st"
  "ends (throw e st) Q \<longleftrightarrow> Q st"
  by (simp_all add: ends_def ok_def throw_def)

lemma endsD_returned: "ends r Q \<Longrightarrow> r = Some (Inr (v, st')) \<Longrightarrow> Q st'"
  by (auto simp: ends_def)

lemma endsD_thrown: "ends r Q \<Longrightarrow> r = Some (Inl (e, st')) \<Longrightarrow> Q st'"
  by (auto simp: ends_def)

lemma ends_mono: "ends r Q \<Longrightarrow> (\<And>s. Q s \<Longrightarrow> Q' s) \<Longrightarrow> ends r Q'"
  by (auto simp: ends_def)

lemma ends_andThen:
  assumes "ends m Q'"
    and "\<And>v s. m = Some (Inr (v, s)) \<Longrightarrow> Q' s \<Longrightarrow> ends (f v s) Q"
    and "\<And>s. Q' s \<Longrightarrow> Q s"
  shows "ends (andThen m f) Q"
proof (cases m)
  case None
  then show ?thesis by simp
next
  case (Some x)
  show ?thesis
  proof (cases x)
    case (Inl p)
    with Some assms(1,3) show ?thesis
      by (cases p) (auto simp: ends_def)
  next
    case (Inr q)
    with Some assms(1,2) show ?thesis
      by (cases q) (auto simp: ends_def)
  qed
qed

subsection \<open>State transformers, field by field\<close>

lemma setInstance_fields [simp]:
  "registrations (setInstance c i v st) = registrations st"
  "scopes (setInstance c i v st) = scopes st"
  "heap (setInstance c i v st) = heap st"
  "instances (setInstance c i v st) = (instances st)(c := (instances st c)(i \<mapsto> v))"
  by (simp_all add: setInstance_def)

lemma construct_fields [simp]:
  "fst (construct k as st) = Obj (length (heap st))"
  "registrations (snd (construct k as st)) = registrations st"
  "scopes (snd (construct k as st)) = scopes st"
  "instances (snd (construct k as st)) = instances st"
  "length (heap (snd (construct k as st))) = Suc (length (heap st))"
  by (simp_all add: construct_def)

lemma push_fields [simp]:
  "registrations (push a v st) = registrations st"
  "scopes (push a v st) = scopes st"
  "instances (push a v st) = instances st"
  "length (heap (push a v st)) = length (heap st)"
  by (simp_all add: push_def)

lemma setEntry_fields [simp]:
  "registrations (setEntry a k v st) = registrations st"
  "scopes (setEntry a k v st) = scopes st"
  "instances (setEntry a k v st) = instances st"
  "length (heap (setEntry a k v st)) = length (heap st)"
  by (simp_all add: setEntry_def)

lemma rootOf_root [simp]: "rootOf c = []"
  by (induction c) auto

lemma remember_fields [simp]:
  "registrations (remember c i r v st) = registrations st"
  "scopes (remember c i r v st) = scopes st"
  "heap (remember c i r v st) = heap st"
  by (simp_all add: remember_def split: lifetime.splits)

lemma instances_remember:
  "instances (remember c i r v st) =
     (case lifetime r of
        singleton \<Rightarrow> (instances st)([] := (instances st [])(i \<mapsto> v))
      | scoped \<Rightarrow> (instances st)(c := (instances st c)(i \<mapsto> v))
      | transient \<Rightarrow> instances st)"
  by (simp add: remember_def split: lifetime.splits)

subsection \<open>The frame of a call\<close>

lemma frame_refl [simp]: "frame c st st"
  by (simp add: frame_def)

lemma frame_trans: "frame c st st1 \<Longrightarrow> frame c st1 st2 \<Longrightarrow> frame c st st2"
  unfolding frame_def by (intro conjI; (simp; fail)?) metis

lemma frame_construct [simp]: "frame c st (snd (construct k as st))"
  by (simp add: frame_def)

lemma frame_push [simp]: "frame c st (push a v st)"
  by (simp add: frame_def)

lemma frame_setEntry [simp]: "frame c st (setEntry a k v st)"
  by (simp add: frame_def)

lemma frame_remember:
  "map_of (registrations st) i = Some r \<Longrightarrow> usable r \<Longrightarrow> frame c st (remember c i r v st)"
  by (auto simp: frame_def instances_remember split: lifetime.splits if_splits)

lemma ends_frame_trans:
  "frame c st s \<Longrightarrow> ends r (frame c s) \<Longrightarrow> ends r (frame c st)"
  by (erule ends_mono) (rule frame_trans)

subsection \<open>The frame of \<open>get\<close>\<close>

lemma resolveAll_frame:
  assumes G: "\<And>d s. ends (g d s) (frame c s)"
  shows "ends (resolveAll g ds acc st) (frame c st)"
proof (induction ds arbitrary: acc st)
  case Nil
  show ?case by simp
next
  case (Cons d ds)
  show ?case
    unfolding resolveAll.simps
    by (rule ends_andThen [OF G]) (auto intro: ends_frame_trans Cons.IH)
qed

lemma runFactory_frame:
  assumes G: "\<And>d s. ends (g d s) (frame c s)"
  shows "ends (runFactory p g st) (frame c st)"
proof (induction p arbitrary: st)
  case (Return v)
  show ?case by simp
next
  case (Get i k)
  show ?case
    unfolding runFactory.simps
    by (rule ends_andThen [OF G]) (auto intro: ends_frame_trans Get.IH [OF rangeI])
next
  case (New k as f)
  have "ends (runFactory (f (fst (construct k as st))) g (snd (construct k as st)))
          (frame c (snd (construct k as st)))"
    by (rule New.IH [OF rangeI])
  then have "ends (runFactory (f (fst (construct k as st))) g (snd (construct k as st)))
          (frame c st)"
    by (rule ends_frame_trans [rotated]) simp
  then show ?case
    by (simp add: case_prod_beta)
qed

lemma pushAll_frame:
  assumes G: "\<And>d s. ends (g d s) (frame c s)"
  shows "ends (pushAll g a ds st) (frame c st)"
proof (induction ds arbitrary: st)
  case Nil
  show ?case by simp
next
  case (Cons d ds)
  show ?case
    unfolding pushAll.simps
  proof (rule ends_andThen [OF G])
    fix v s
    assume "frame c st s"
    then have "frame c st (push a v s)"
      by (rule frame_trans) simp
    then show "ends (pushAll g a ds (push a v s)) (frame c st)"
      by (rule ends_frame_trans) (rule Cons.IH)
  qed
qed

lemma setAll_frame:
  assumes G: "\<And>d s. ends (g d s) (frame c s)"
  shows "ends (setAll g a kds st) (frame c st)"
proof (induction kds arbitrary: st)
  case Nil
  show ?case by simp
next
  case (Cons kd kds)
  obtain k d where kd: "kd = (k, d)" by (cases kd)
  show ?case
    unfolding kd setAll.simps
  proof (rule ends_andThen [OF G])
    fix v s
    assume "frame c st s"
    then have "frame c st (setEntry a k v s)"
      by (rule frame_trans) simp
    then show "ends (setAll g a kds (setEntry a k v s)) (frame c st)"
      by (rule ends_frame_trans) (rule Cons.IH)
  qed
qed

lemma populate_frame:
  assumes G: "\<And>d s. ends (g d s) (frame c s)"
  shows "ends (populate g r v st) (frame c st)"
  by (auto simp: populate_def pushAll_frame [OF G] setAll_frame [OF G]
      split: option.splits collection.splits val.splits)

lemma instantiate_frame:
  assumes G: "\<And>d s. ends (g d s) (frame c s)"
  shows "ends (instantiate g this i r st) (frame c st)"
proof (cases "constructor r")
  case (Some k)
  have "ends (andThen (resolveAll g (ctorDependencies r) [] st)
          (\<lambda>resolved st'. case construct k resolved st' of (v, st'') \<Rightarrow> ok v st'')) (frame c st)"
  proof (rule ends_andThen [OF resolveAll_frame [OF G]])
    fix v s
    assume "frame c st s"
    then have "frame c st (snd (construct k v s))"
      by (rule frame_trans) simp
    then show "ends (case construct k v s of (v, st'') \<Rightarrow> ok v st'') (frame c st)"
      by (simp add: case_prod_beta)
  qed
  with Some show ?thesis by (simp add: instantiate_def)
next
  case None
  then show ?thesis
    by (auto simp: instantiate_def runFactory_frame [OF G] split: option.splits)
qed

lemma instantiate_usable:
  "instantiate g this i r st = Some (Inr (v, st')) \<Longrightarrow> usable r"
  by (auto simp: instantiate_def usable_def split: option.splits if_splits)

lemma createInstance_frame:
  assumes G: "\<And>d s. ends (g d s) (frame c s)"
    and r: "map_of (registrations st) i = Some r"
  shows "ends (createInstance g c i r st) (frame c st)"
  unfolding createInstance_def
proof (rule ends_andThen [OF instantiate_frame [OF G]])
  fix v s
  assume inst: "instantiate g c i r st = Some (Inr (v, s))" and f1: "frame c st s"
  show "ends (andThen (populate g r v s) (\<lambda>u st2. ok v (remember c i r v st2))) (frame c st)"
  proof (rule ends_andThen [OF populate_frame [OF G]])
    fix u s2
    assume f2: "frame c s s2"
    from f1 f2 have f: "frame c st s2" by (rule frame_trans)
    then have "map_of (registrations s2) i = Some r"
      using r by (simp add: frame_def)
    then have "frame c s2 (remember c i r v s2)"
      using instantiate_usable [OF inst] by (rule frame_remember)
    with f have "frame c st (remember c i r v s2)" by (rule frame_trans)
    then show "ends (ok v (remember c i r v s2)) (frame c st)" by simp
  next
    fix s2
    assume "frame c s s2"
    with f1 show "frame c st s2" by (rule frame_trans)
  qed
qed

lemma getBody_frame:
  assumes G: "\<And>d s. ends (g d s) (frame c s)"
  shows "ends (getBody g c i st) (frame c st)"
  by (auto simp: getBody_def createInstance_frame [OF G] split: option.splits)

lemma get_frame: "ends (get n c i st) (frame c st)"
proof (induction n arbitrary: i st)
  case 0
  show ?case by (simp add: getBody_frame)
next
  case (Suc n)
  show ?case
    unfolding get.simps by (rule getBody_frame) (rule Suc.IH)
qed

lemma nestedGet_frame: "ends (nestedGet n c d s) (frame c s)"
  by (cases n) (simp_all add: nestedGet_def get_frame)

lemma get_eq: "get n this i st = getBody (nestedGet n this) this i st"
  by (cases n) (simp_all add: nestedGet_def)

declare get.simps [simp del]

subsection \<open>A larger bound on the nesting changes no result\<close>

lemma belowD: "below g g' \<Longrightarrow> g d s = Some x \<Longrightarrow> g' d s = Some x"
  by (auto simp: below_def)

lemma andThen_mono:
  assumes "andThen m f = Some x"
    and "\<And>y. m = Some y \<Longrightarrow> m' = Some y"
    and "\<And>v s y. f v s = Some y \<Longrightarrow> f' v s = Some y"
  shows "andThen m' f' = Some x"
proof (cases m)
  case None
  with assms(1) show ?thesis by simp
next
  case (Some y)
  with assms(2) have m': "m' = Some y" by simp
  from Some assms(1,3) show ?thesis
    unfolding m' by (cases y) (auto simp: andThen_def split: prod.splits)
qed

lemma resolveAll_mono:
  assumes "below g g'"
  shows "resolveAll g ds acc st = Some x \<Longrightarrow> resolveAll g' ds acc st = Some x"
proof (induction ds arbitrary: acc st x)
  case Nil
  then show ?case by simp
next
  case (Cons d ds)
  from Cons.prems show ?case
    unfolding resolveAll.simps
    by (rule andThen_mono) (auto intro: belowD [OF assms] Cons.IH)
qed

lemma runFactory_mono:
  assumes "below g g'"
  shows "runFactory p g st = Some x \<Longrightarrow> runFactory p g' st = Some x"
proof (induction p arbitrary: st x)
  case (Return v)
  then show ?case by simp
next
  case (Get d k)
  from Get.prems show ?case
    unfolding runFactory.simps
    by (rule andThen_mono) (auto intro: belowD [OF assms] Get.IH [OF rangeI])
next
  case (New k as f)
  then show ?case
    by (auto simp: case_prod_beta intro: New.IH [OF rangeI])
qed

lemma pushAll_mono:
  assumes "below g g'"
  shows "pushAll g a ds st = Some x \<Longrightarrow> pushAll g' a ds st = Some x"
proof (induction ds arbitrary: st x)
  case Nil
  then show ?case by simp
next
  case (Cons d ds)
  from Cons.prems show ?case
    unfolding pushAll.simps
    by (rule andThen_mono) (auto intro: belowD [OF assms] Cons.IH)
qed

lemma setAll_mono:
  assumes "below g g'"
  shows "setAll g a kds st = Some x \<Longrightarrow> setAll g' a kds st = Some x"
proof (induction kds arbitrary: st x)
  case Nil
  then show ?case by simp
next
  case (Cons kd kds)
  obtain k d where kd: "kd = (k, d)" by (cases kd)
  from Cons.prems show ?case
    unfolding kd setAll.simps
    by (rule andThen_mono) (auto intro: belowD [OF assms] Cons.IH)
qed

lemma populate_mono:
  assumes "below g g'"
  shows "populate g r v st = Some x \<Longrightarrow> populate g' r v st = Some x"
  by (auto simp: populate_def intro: pushAll_mono [OF assms] setAll_mono [OF assms]
      split: option.splits collection.splits val.splits if_splits)

lemma instantiate_mono:
  assumes "below g g'"
  shows "instantiate g this i r st = Some x \<Longrightarrow> instantiate g' this i r st = Some x"
  unfolding instantiate_def
  by (auto split: option.splits if_splits
      intro: runFactory_mono [OF assms] elim!: andThen_mono intro: resolveAll_mono [OF assms])

lemma createInstance_mono:
  assumes "below g g'"
  shows "createInstance g this i r st = Some x \<Longrightarrow> createInstance g' this i r st = Some x"
  unfolding createInstance_def
  by (erule andThen_mono)
    (auto intro: instantiate_mono [OF assms] populate_mono [OF assms] elim!: andThen_mono)

lemma getBody_mono:
  assumes "below g g'"
  shows "getBody g this i st = Some x \<Longrightarrow> getBody g' this i st = Some x"
  by (auto simp: getBody_def intro: createInstance_mono [OF assms] split: option.splits if_splits)

lemma get_Suc: "get n this i st = Some x \<Longrightarrow> get (Suc n) this i st = Some x"
proof (induction n arbitrary: i st x)
  case 0
  then show ?case
    unfolding get.simps by (rule getBody_mono [rotated]) (simp add: below_def)
next
  case (Suc n)
  have b: "below (\<lambda>d st'. get n this d st') (\<lambda>d st'. get (Suc n) this d st')"
    unfolding below_def using Suc.IH by blast
  have "getBody (\<lambda>d st'. get n this d st') this i st = get (Suc n) this i st"
    by (rule get.simps(2) [symmetric])
  with Suc.prems have "getBody (\<lambda>d st'. get n this d st') this i st = Some x"
    by simp
  then have *: "getBody (\<lambda>d st'. get (Suc n) this d st') this i st = Some x"
    by (rule getBody_mono [OF b])
  have "get (Suc (Suc n)) this i st = getBody (\<lambda>d st'. get (Suc n) this d st') this i st"
    by (rule get.simps(2))
  also note *
  finally show ?case .
qed

lemma get_more_fuel: "get n this i st = Some x \<Longrightarrow> n \<le> m \<Longrightarrow> get m this i st = Some x"
  by (induction m) (auto simp: le_Suc_eq intro: get_Suc)

subsection \<open>The cache chain\<close>

lemma chain_self [simp]: "s \<in> set (chain s)"
  by (cases s) auto

lemma chain_root [simp]: "[] \<in> set (chain s)"
  by (induction s) auto

lemma chain_length: "c \<in> set (chain s) \<Longrightarrow> length c \<le> length s"
  by (induction s) auto

lemma child_not_in_chain [simp]: "k # s \<notin> set (chain s)"
  using chain_length [of "k # s" s] by auto

lemma sibling_not_in_chain: "k \<noteq> k' \<Longrightarrow> k # p \<notin> set (chain (k' # p))"
  by simp

lemma cached_eq: "instances st' c i = instances st c i \<Longrightarrow> cached c i st' = cached c i st"
  by (simp add: cached_def)

lemma getScopedInstance_cong:
  "(\<And>c. c \<in> set (chain s) \<Longrightarrow> instances st' c i = instances st c i) \<Longrightarrow>
   getScopedInstance s i st' = getScopedInstance s i st"
  by (induction s) (simp_all add: cached_def Let_def)

lemma getScopedInstance_falsy:
  "\<not> truthy (getScopedInstance s i st) \<longleftrightarrow> (\<forall>c \<in> set (chain s). \<not> truthy (cached c i st))"
  by (induction s) (auto simp: Let_def)

lemma getScopedInstance_root:
  "(\<And>c. c \<in> set (chain s) \<Longrightarrow> c \<noteq> [] \<Longrightarrow> \<not> truthy (cached c i st)) \<Longrightarrow>
   getScopedInstance s i st = cached [] i st"
  by (induction s) (auto simp: Let_def)

lemma getScopedInstance_here:
  "truthy (cached s i st) \<Longrightarrow> getScopedInstance s i st = cached s i st"
  by (cases s) (auto simp: Let_def)

lemma cached_Some [simp]: "instances st c i = Some v \<Longrightarrow> cached c i st = v"
  by (simp add: cached_def)

lemma cached_None [simp]: "instances st c i = None \<Longrightarrow> cached c i st = Undefined"
  by (simp add: cached_def)

lemma truthy_cached: "truthy (cached c i st) \<Longrightarrow> instances st c i = Some (cached c i st)"
  by (auto simp: cached_def split: option.splits)

lemma getScopedInstance_holder:
  "getScopedInstance s i st =
     (case holder s i st of Some c \<Rightarrow> cached c i st | None \<Rightarrow> cached [] i st)"
  by (induction s) (auto simp: holder_def Let_def)

lemma holder_None: "holder s i st = None \<longleftrightarrow> \<not> truthy (getScopedInstance s i st)"
  by (auto simp: holder_def find_None_iff getScopedInstance_falsy)

lemma holder_Some:
  assumes "holder s i st = Some c"
  shows "truthy (cached c i st)" "getScopedInstance s i st = cached c i st" "c \<in> set (chain s)"
  using assms by (auto simp: getScopedInstance_holder) (auto simp: holder_def find_Some_iff)

subsection \<open>\<open>createScopedContainer\<close> and \<open>override\<close>, field by field\<close>

lemma createScopedContainer_fields [simp]:
  "fst (createScopedContainer this st) = length (scopes st) # this"
  "registrations (snd (createScopedContainer this st)) = registrations st"
  "heap (snd (createScopedContainer this st)) = heap st"
  "scopes (snd (createScopedContainer this st)) = scopes st @ [length (scopes st) # this]"
  "instances (snd (createScopedContainer this st)) =
     (instances st)(length (scopes st) # this := Map.empty)"
  by (simp_all add: createScopedContainer_def Let_def)

lemma override_fields [simp]:
  "heap (override this i v st) = heap st"
  "scopes (override this i v st) = scopes st"
  "instances (override this i v st) = (instances st)(this := (instances st this)(i \<mapsto> v))"
  by (simp_all add: override_def)

lemma map_of_override:
  "map_of (registrations (override this i v st)) =
     (map_of (registrations st))
       (i \<mapsto> \<lparr> constructor = None, factory = None, instance' = v, lifetime = scoped,
               dependencies = [], ctorDependencies = [], collectionDependencies = None \<rparr>)"
  by (simp add: override_def map_of_mapSet)

subsection \<open>Two invariants of the reachable states\<close>

lemma frame_entry:
  assumes "frame c st st'" and "map_of (registrations st) i = Some r"
    and "\<not> (lifetime r = singleton \<and> c' = [])" and "\<not> (lifetime r = scoped \<and> c' = c)"
  shows "instances st' c' i = instances st c' i"
proof (rule ccontr)
  assume "instances st' c' i \<noteq> instances st c' i"
  with assms(1) obtain r' where "map_of (registrations st) i = Some r'"
    and "(lifetime r' = singleton \<and> c' = []) \<or> (lifetime r' = scoped \<and> c' = c)"
    unfolding frame_def by blast
  with assms(2-4) show False by auto
qed

lemma frame_registrations: "frame c st st' \<Longrightarrow> registrations st' = registrations st"
  by (simp add: frame_def)

lemma frame_heap: "frame c st st' \<Longrightarrow> length (heap st) \<le> length (heap st')"
  by (simp add: frame_def)

lemma frame_singletonsAtRoot:
  assumes "frame c st st'" and "singletonsAtRoot st"
  shows "singletonsAtRoot st'"
  unfolding singletonsAtRoot_def
proof (intro allI impI)
  fix i r and c' :: scope
  assume h: "map_of (registrations st') i = Some r \<and> lifetime r = singleton \<and> c' \<noteq> []"
  with assms(1) have r: "map_of (registrations st) i = Some r"
    by (simp add: frame_registrations)
  with assms(1) h have "instances st' c' i = instances st c' i"
    by (intro frame_entry [where r = r]) auto
  also from assms(2) r h have "instances st c' i = None"
    unfolding singletonsAtRoot_def by blast
  finally show "instances st' c' i = None" .
qed

lemma frame_cachedAreUsable:
  assumes "frame c st st'" and "cachedAreUsable st"
  shows "cachedAreUsable st'"
  unfolding cachedAreUsable_def
proof (intro allI impI)
  fix c' i v
  assume h: "instances st' c' i = Some v \<and> truthy v"
  show "\<exists>r. map_of (registrations st') i = Some r \<and> usable r"
  proof (cases "instances st' c' i = instances st c' i")
    case True
    with h assms(2) have "\<exists>r. map_of (registrations st) i = Some r \<and> usable r"
      unfolding cachedAreUsable_def by auto
    with assms(1) show ?thesis by (simp add: frame_registrations)
  next
    case False
    with assms(1) have "\<exists>r. map_of (registrations st) i = Some r \<and> usable r"
      unfolding frame_def by blast
    with assms(1) show ?thesis by (simp add: frame_registrations)
  qed
qed

lemma newContainer_invariants:
  "singletonsAtRoot (newContainer rs)" "cachedAreUsable (newContainer rs)"
  by (simp_all add: singletonsAtRoot_def cachedAreUsable_def newContainer_def)

lemma createScopedContainer_invariants:
  "singletonsAtRoot st \<Longrightarrow> singletonsAtRoot (snd (createScopedContainer this st))"
  "cachedAreUsable st \<Longrightarrow> cachedAreUsable (snd (createScopedContainer this st))"
  by (auto simp: singletonsAtRoot_def cachedAreUsable_def split: if_splits)

lemma override_singletonsAtRoot:
  "singletonsAtRoot st \<Longrightarrow> singletonsAtRoot (override this i v st)"
  by (auto simp: singletonsAtRoot_def map_of_override split: if_splits)

lemma override_cachedAreUsable:
  "truthy v \<Longrightarrow> cachedAreUsable st \<Longrightarrow> cachedAreUsable (override this i v st)"
  unfolding cachedAreUsable_def
  by (auto simp: map_of_override usable_def split: if_splits)

lemma build_returns:
  "build configs = Some (Inr (root, st)) \<Longrightarrow> root = [] \<and> st = newContainer (assemble configs)"
  by (auto simp: build_def Let_def split: sum.splits option.splits)

lemma reachable_invariants:
  "reachable st \<Longrightarrow> singletonsAtRoot st \<and> cachedAreUsable st"
proof (induction rule: reachable.induct)
  case (built configs root st)
  then show ?case
    by (auto dest!: build_returns simp: newContainer_invariants)
next
  case (got st this n i x)
  from get_frame [of n this i st] got.hyps(3) have "frame this st (final x)"
    by (simp add: ends_def)
  with got.IH show ?case
    by (blast intro: frame_singletonsAtRoot frame_cachedAreUsable)
next
  case (scope_created st this)
  then show ?case by (simp add: createScopedContainer_invariants)
next
  case (overridden st this inst i)
  then show ?case by (simp add: override_singletonsAtRoot override_cachedAreUsable)
qed

subsection \<open>Cached instances are as registered\<close>

lemma keeps_frame: "keeps c st st' \<Longrightarrow> frame c st st'"
  by (simp add: keeps_def)


lemma keeps_refl [simp]: "keeps c st st"
  by (simp add: keeps_def)


lemma keeps_construct [simp]: "keeps c st (snd (construct k as st))"
  by (simp add: keeps_def)

lemma keeps_push [simp]: "keeps c st (push a v st)"
  by (simp add: keeps_def)

lemma keeps_setEntry [simp]: "keeps c st (setEntry a k v st)"
  by (simp add: keeps_def)















subsection \<open>How \<open>get\<close> and \<open>createInstance\<close> decompose\<close>

lemma getBody_absent:
  "map_of (registrations st) i = None \<Longrightarrow>
   getBody g this i st = Some (Inl (RegistrationNotFound (name i), st))"
  by (simp add: getBody_def throw_def)

lemma getBody_hit:
  "map_of (registrations st) i = Some r \<Longrightarrow> lifetime r \<noteq> transient \<Longrightarrow>
   truthy (getScopedInstance this i st) \<Longrightarrow>
   getBody g this i st = Some (Inr (getScopedInstance this i st, st))"
  by (simp add: getBody_def ok_def)

lemma getBody_miss:
  "map_of (registrations st) i = Some r \<Longrightarrow>
   lifetime r = transient \<or> \<not> truthy (getScopedInstance this i st) \<Longrightarrow>
   getBody g this i st = createInstance g this i r st"
  by (auto simp: getBody_def)

lemma createInstance_returns:
  "createInstance g this i r st = Some (Inr (v, st')) \<longleftrightarrow>
     (\<exists>st1 st2. instantiate g this i r st = Some (Inr (v, st1)) \<and>
                populate g r v st1 = Some (Inr ((), st2)) \<and>
                st' = remember this i r v st2)"
  by (auto simp: createInstance_def andThen_returns)

lemma createInstance_invalid:
  "constructor r = None \<Longrightarrow> factory r = None \<Longrightarrow> \<not> truthy (instance' r) \<Longrightarrow>
   createInstance g this i r st = Some (Inl (InvalidRegistration (name i), st))"
  by (simp add: createInstance_def instantiate_def throw_def)

lemma get_hit:
  "map_of (registrations st) i = Some r \<Longrightarrow> lifetime r \<noteq> transient \<Longrightarrow>
   truthy (getScopedInstance this i st) \<Longrightarrow>
   get n this i st = Some (Inr (getScopedInstance this i st, st))"
  by (simp add: get_eq getBody_hit)

lemma get_miss:
  "map_of (registrations st) i = Some r \<Longrightarrow>
   lifetime r = transient \<or> \<not> truthy (getScopedInstance this i st) \<Longrightarrow>
   get n this i st = createInstance (nestedGet n this) this i r st"
  by (simp add: get_eq getBody_miss)

text \<open>What a returning, non-transient \<open>get\<close> was: a hit, or a construction.\<close>

lemma get_returns_cases:
  assumes "map_of (registrations st) i = Some r"
    and "get n this i st = Some (Inr (v, st'))"
  obtains (hit) "lifetime r \<noteq> transient" "truthy (getScopedInstance this i st)"
      "v = getScopedInstance this i st" "st' = st"
  | (constructed) st1 st2 where
      "lifetime r = transient \<or> \<not> truthy (getScopedInstance this i st)"
      "instantiate (nestedGet n this) this i r st = Some (Inr (v, st1))"
      "populate (nestedGet n this) r v st1 = Some (Inr ((), st2))"
      "st' = remember this i r v st2" "frame this st st1" "frame this st1 st2"
proof (cases "lifetime r \<noteq> transient \<and> truthy (getScopedInstance this i st)")
  case True
  with assms get_hit [of st i r this n] show ?thesis
    by (intro hit) auto
next
  case False
  then have miss: "lifetime r = transient \<or> \<not> truthy (getScopedInstance this i st)" by auto
  with assms have "createInstance (nestedGet n this) this i r st = Some (Inr (v, st'))"
    by (simp add: get_miss)
  then obtain st1 st2 where
    1: "instantiate (nestedGet n this) this i r st = Some (Inr (v, st1))" and
    2: "populate (nestedGet n this) r v st1 = Some (Inr ((), st2))" and
    3: "st' = remember this i r v st2"
    by (auto simp: createInstance_returns)
  have "frame this st st1"
    using instantiate_frame [of "nestedGet n this" this this i r st, OF nestedGet_frame] 1
    by (rule endsD_returned)
  moreover have "frame this st1 st2"
    using populate_frame [of "nestedGet n this" this r v st1, OF nestedGet_frame] 2
    by (rule endsD_returned)
  ultimately show ?thesis
    using miss 1 2 3 by (intro constructed)
qed

text \<open>A constructed object is fresh.\<close>

lemma resolveAll_returns_frame:
  assumes "resolveAll (nestedGet n c) ds acc st = Some (Inr (vs, st'))"
  shows "frame c st st'"
  using resolveAll_frame [of "nestedGet n c" c ds acc st, OF nestedGet_frame] assms
  by (rule endsD_returned)

lemma instantiate_fresh:
  assumes "constructor r = Some k"
    and "instantiate (nestedGet n c) c i r st = Some (Inr (v, st'))"
  shows "\<exists>a. v = Obj a \<and> length (heap st) \<le> a \<and> a < length (heap st')"
proof -
  from assms obtain resolved s where
    1: "resolveAll (nestedGet n c) (ctorDependencies r) [] st = Some (Inr (resolved, s))" and
    2: "v = fst (construct k resolved s)" "st' = snd (construct k resolved s)"
    by (auto simp: instantiate_def andThen_returns case_prod_beta)
  from 1 have "length (heap st) \<le> length (heap s)"
    by (intro frame_heap resolveAll_returns_frame)
  with 2 show ?thesis by simp
qed

lemma constructed_is_fresh:
  assumes r: "map_of (registrations st) i = Some r" and k: "constructor r = Some k"
    and miss: "lifetime r = transient \<or> \<not> truthy (getScopedInstance c i st)"
    and g: "get n c i st = Some (Inr (v, st'))"
  shows "\<exists>a. v = Obj a \<and> length (heap st) \<le> a \<and> a < length (heap st')"
  using r g
proof (cases rule: get_returns_cases)
  case hit
  with miss show ?thesis by simp
next
  case (constructed st1 st2)
  from instantiate_fresh [OF k constructed(2)] obtain a where
    "v = Obj a" "length (heap st) \<le> a" "a < length (heap st1)" by blast
  moreover from constructed have "length (heap st1) \<le> length (heap st')"
    by (simp add: frame_heap)
  ultimately show ?thesis by auto
qed

lemma get_returns_frame:
  "get n c i st = Some (Inr (v, st')) \<Longrightarrow> frame c st st'"
  using get_frame [of n c i st] by (rule endsD_returned)

text \<open>Only a factory can make \<open>get\<close> return a falsy value.\<close>

lemma get_returns_truthy:
  assumes r: "map_of (registrations st) i = Some r"
    and s: "constructor r \<noteq> None \<or> factory r = None"
    and g: "get n this i st = Some (Inr (v, st'))"
  shows "truthy v"
  using r g
proof (cases rule: get_returns_cases)
  case hit
  then show ?thesis by simp
next
  case (constructed st1 st2)
  show ?thesis
  proof (cases "constructor r")
    case (Some k)
    from instantiate_fresh [OF Some constructed(2)] show ?thesis by auto
  next
    case None
    with s constructed(2) show ?thesis
      by (auto simp: instantiate_def split: if_splits)
  qed
qed

text \<open>A truthy instance that a \<open>get\<close> returned is what the chain of the node holds afterwards.\<close>

lemma cached_is_served:
  assumes r: "map_of (registrations st) i = Some r" and l: "lifetime r \<noteq> transient"
    and g: "get n c i st = Some (Inr (v, st'))" and v: "truthy v"
  shows "getScopedInstance c i st' = v"
  using r g
proof (cases rule: get_returns_cases)
  case hit
  then show ?thesis by simp
next
  case (constructed st1 st2)
  from constructed(5,6) have f: "frame c st st2" by (rule frame_trans)
  show ?thesis
  proof (cases "lifetime r")
    case transient
    with l show ?thesis by simp
  next
    case scoped
    with constructed have "instances st' c i = Some v" by (simp add: instances_remember)
    with v show ?thesis
      using getScopedInstance_here [of c i st'] by simp
  next
    case singleton
    with constructed have root: "instances st' [] i = Some v" by (simp add: instances_remember)
    have "\<not> truthy (cached c' i st')" if c': "c' \<in> set (chain c)" "c' \<noteq> []" for c'
    proof -
      from constructed singleton c' have "instances st' c' i = instances st2 c' i"
        by (simp add: instances_remember)
      also from f r singleton c' have "\<dots> = instances st c' i"
        by (intro frame_entry [where r = r]) auto
      finally have "cached c' i st' = cached c' i st" by (simp add: cached_def)
      moreover from constructed(1) l c' have "\<not> truthy (cached c' i st)"
        by (simp add: getScopedInstance_falsy)
      ultimately show ?thesis by simp
    qed
    then have "getScopedInstance c i st' = cached [] i st'"
      by (intro getScopedInstance_root) auto
    with root show ?thesis by simp
  qed
qed

subsection \<open>Resolutions that return\<close>

lemma answersD:
  "answers g P rs \<Longrightarrow> P d \<Longrightarrow> registrations s = rs \<Longrightarrow> \<exists>v s'. g d s = Some (Inr (v, s'))"
  by (auto simp: answers_def)

lemma resolveAll_total:
  assumes G: "\<And>d s. ends (g d s) (frame c s)" and A: "answers g P rs"
  shows "list_all P ds \<Longrightarrow> registrations st = rs \<Longrightarrow>
         \<exists>vs st'. resolveAll g ds acc st = Some (Inr (vs, st')) \<and> registrations st' = rs"
proof (induction ds arbitrary: acc st)
  case Nil
  then show ?case by (simp add: ok_def)
next
  case (Cons d ds)
  from Cons.prems answersD [OF A, of d st] obtain v s where
    g: "g d st = Some (Inr (v, s))" by auto
  with Cons.prems have "registrations s = rs"
    using endsD_returned [OF G g] by (simp add: frame_registrations)
  with Cons.prems Cons.IH [of s "acc @ [v]"] g show ?case by auto
qed

lemma runFactory_total:
  assumes G: "\<And>d s. ends (g d s) (frame c s)" and A: "answers g P rs"
  shows "requests P p \<Longrightarrow> registrations st = rs \<Longrightarrow>
         \<exists>v st'. runFactory p g st = Some (Inr (v, st')) \<and> registrations st' = rs"
proof (induction p arbitrary: st)
  case (Return v)
  then show ?case by (simp add: ok_def)
next
  case (Get d k)
  from Get.prems answersD [OF A, of d st] obtain v s where
    g: "g d st = Some (Inr (v, s))" by auto
  with Get.prems have "registrations s = rs"
    using endsD_returned [OF G g] by (simp add: frame_registrations)
  with Get.prems Get.IH [OF rangeI, of v s] g show ?case by auto
next
  case (New k as f)
  from New.prems New.IH [OF rangeI, of "fst (construct k as st)" "snd (construct k as st)"]
  show ?case by (auto simp: case_prod_beta)
qed

lemma pushAll_total:
  assumes G: "\<And>d s. ends (g d s) (frame c s)" and A: "answers g P rs"
  shows "list_all P ds \<Longrightarrow> registrations st = rs \<Longrightarrow>
         \<exists>st'. pushAll g a ds st = Some (Inr ((), st')) \<and> registrations st' = rs"
proof (induction ds arbitrary: st)
  case Nil
  then show ?case by (simp add: ok_def)
next
  case (Cons d ds)
  from Cons.prems answersD [OF A, of d st] obtain v s where
    g: "g d st = Some (Inr (v, s))" by auto
  with Cons.prems have "registrations (push a v s) = rs"
    using endsD_returned [OF G g] by (simp add: frame_registrations)
  with Cons.prems Cons.IH [of "push a v s"] g show ?case by auto
qed

lemma setAll_total:
  assumes G: "\<And>d s. ends (g d s) (frame c s)" and A: "answers g P rs"
  shows "list_all P (map snd kds) \<Longrightarrow> registrations st = rs \<Longrightarrow>
         \<exists>st'. setAll g a kds st = Some (Inr ((), st')) \<and> registrations st' = rs"
proof (induction kds arbitrary: st)
  case Nil
  then show ?case by (simp add: ok_def)
next
  case (Cons kd kds)
  obtain k d where kd: "kd = (k, d)" by (cases kd)
  from Cons.prems kd answersD [OF A, of d st] obtain v s where
    g: "g d st = Some (Inr (v, s))" by auto
  with Cons.prems have "registrations (setEntry a k v s) = rs"
    using endsD_returned [OF G g] by (simp add: frame_registrations)
  with Cons.prems Cons.IH [of "setEntry a k v s"] g kd show ?case by auto
qed

lemma populate_total:
  assumes G: "\<And>d s. ends (g d s) (frame c s)" and A: "answers g P rs"
    and "list_all P (collectionIds r)" "registrations st = rs"
  shows "\<exists>st'. populate g r v st = Some (Inr ((), st')) \<and> registrations st' = rs"
proof (cases "collectionDependencies r")
  case None
  with assms(4) show ?thesis by (simp add: populate_def ok_def)
next
  case (Some cd)
  show ?thesis
  proof (cases cd)
    case (ArrayDeps ds)
    with Some assms(3) have "list_all P ds" by (simp add: collectionIds_def)
    from pushAll_total [OF G A this assms(4)] Some ArrayDeps assms(4) show ?thesis
      by (auto simp: populate_def ok_def split: val.splits)
  next
    case (MapDeps kds)
    with Some assms(3) have "list_all P (map snd kds)" by (simp add: collectionIds_def)
    from setAll_total [OF G A this assms(4)] Some MapDeps assms(4) show ?thesis
      by (auto simp: populate_def ok_def split: val.splits)
  qed
qed

lemma instantiate_total:
  assumes G: "\<And>d s. ends (g d s) (frame c s)" and A: "answers g P rs"
    and R: "resolvableWith P rs i" "map_of rs i = Some r" and st: "registrations st = rs"
  shows "\<exists>v st'. instantiate g this i r st = Some (Inr (v, st')) \<and> registrations st' = rs"
proof (cases "constructor r")
  case (Some k)
  with R have "list_all P (ctorDependencies r)" by (simp add: resolvableWith_def)
  from resolveAll_total [OF G A this st, of "[]"] Some show ?thesis
    by (auto simp: instantiate_def case_prod_beta)
next
  case None
  show ?thesis
  proof (cases "factory r")
    case (Some f)
    with None R have "requests P (f (Cont this))" by (simp add: resolvableWith_def)
    from runFactory_total [OF G A this st] None Some show ?thesis
      by (simp add: instantiate_def)
  next
    case None': None
    with None R st show ?thesis
      by (simp add: resolvableWith_def instantiate_def ok_def)
  qed
qed

lemma createInstance_total:
  assumes G: "\<And>d s. ends (g d s) (frame c s)" and A: "answers g P rs"
    and R: "resolvableWith P rs i" "map_of rs i = Some r" and st: "registrations st = rs"
  shows "\<exists>v st'. createInstance g this i r st = Some (Inr (v, st'))"
proof -
  from instantiate_total [OF G A R st] obtain v st1 where
    1: "instantiate g this i r st = Some (Inr (v, st1))" "registrations st1 = rs" by blast
  from R have "list_all P (collectionIds r)" by (simp add: resolvableWith_def)
  from populate_total [OF G A this 1(2), of v] obtain st2 where
    2: "populate g r v st1 = Some (Inr ((), st2))" by blast
  from 1 2 show ?thesis by (simp add: createInstance_def ok_def)
qed

lemma getBody_total:
  assumes G: "\<And>d s. ends (g d s) (frame c s)" and A: "answers g P rs"
    and R: "resolvableWith P rs i" and st: "registrations st = rs"
  shows "\<exists>v st'. getBody g this i st = Some (Inr (v, st'))"
proof -
  from R obtain r where r: "map_of rs i = Some r"
    by (auto simp: resolvableWith_def split: option.splits)
  from createInstance_total [OF G A R r st] r st show ?thesis
    by (auto simp: getBody_def ok_def)
qed

lemma get_total:
  "resolvable (registrations st) n i \<Longrightarrow> \<exists>v st'. get n this i st = Some (Inr (v, st'))"
proof (induction n arbitrary: i st)
  case 0
  have "answers (\<lambda>d st'. None) (\<lambda>d. False) (registrations st)"
    by (simp add: answers_def)
  with 0 show ?case
    unfolding get.simps by (intro getBody_total [where c = this and P = "\<lambda>d. False"]) simp_all
next
  case (Suc n)
  have "answers (\<lambda>d st'. get n this d st') (resolvable (registrations st) n) (registrations st)"
    unfolding answers_def using Suc.IH by auto
  with Suc.prems show ?case
    unfolding get.simps
    by (intro getBody_total [where c = this and P = "resolvable (registrations st) n"])
      (simp_all add: get_frame)
qed

lemma getTimes_total:
  "resolvable (registrations st) n i \<Longrightarrow>
   \<exists>vs st'. getTimes n k this i st = Some (Inr (vs, st'))"
proof (induction k arbitrary: st)
  case 0
  show ?case by (simp add: ok_def)
next
  case (Suc k)
  from get_total [OF Suc.prems, of this] obtain v st1 where
    g: "get n this i st = Some (Inr (v, st1))" by blast
  then have "registrations st1 = registrations st"
    using endsD_returned [OF get_frame g] by (simp add: frame_registrations)
  with Suc.prems Suc.IH [of st1] obtain vs st' where
    "getTimes n k this i st1 = Some (Inr (vs, st'))" by auto
  with g show ?case by (simp add: ok_def)
qed

subsection \<open>A new tree\<close>


lemma newContainer_fields [simp]:
  "registrations (newContainer rs) = rs"
  "instances (newContainer rs) = (\<lambda>c. Map.empty)"
  "scopes (newContainer rs) = [[]]"
  "heap (newContainer rs) = []"
  by (simp_all add: newContainer_def)

lemma getScopedInstance_empty [simp]:
  "instances st = (\<lambda>c. Map.empty) \<Longrightarrow> getScopedInstance s i st = Undefined"
  by (induction s) (simp_all add: cached_def Let_def)











subsection \<open>Evaluating the examples\<close>

lemmas example_defs =
  dbOnly_def requestOnly_def nullConfig_def handlerAndLogger_def unconfigured_def
  customContainer_def useClass_def useFactory_def useInstance_def noStrategy_def
  selfRegistration_def

lemmas validator_defs =
  assemble_def has_def Let_def verifyRegistrations_def verifyNoCircularDependencies_def
  checkCircularDependencies.simps

lemma get_leaf:
  assumes "map_of (registrations st) i = Some r" "constructor r = Some c"
    "ctorDependencies r = []" "collectionDependencies r = None"
    "lifetime r = transient \<or> \<not> truthy (getScopedInstance this i st)"
  shows "get n this i st =
     Some (Inr (Obj (length (heap st)),
                remember this i r (Obj (length (heap st))) (snd (construct c [] st))))"
  using assms
  by (simp add: get_miss createInstance_def instantiate_def populate_def case_prod_beta ok_def)

lemma reachable_newContainer:
  "verifyRegistrations (assemble configs) = Inr () \<Longrightarrow>
   verifyNoCircularDependencies (assemble configs) = Some (Inr ()) \<Longrightarrow>
   reachable (newContainer (assemble configs))"
  by (rule reachable.built [of configs "[]"]) (simp add: build_def)

lemma reachable_twoScopes: "reachable st \<Longrightarrow> [] \<in> set (scopes st) \<Longrightarrow> reachable (twoScopes st)"
  unfolding twoScopes_def
  by (intro reachable.scope_created) simp_all

lemma twoScopes_fields [simp]:
  "registrations (twoScopes st) = registrations st"
  "heap (twoScopes st) = heap st"
  "scopes (twoScopes st) =
     scopes st @ [length (scopes st) # [], Suc (length (scopes st)) # []]"
  "instances (twoScopes st) =
     (instances st)(length (scopes st) # [] := Map.empty,
                    Suc (length (scopes st)) # [] := Map.empty)"
  by (simp_all add: twoScopes_def)

lemma reachable_dbTree: "reachable dbTree"
  unfolding dbTree_def
  by (intro reachable_twoScopes reachable_newContainer)
    (simp_all add: example_defs validator_defs)

lemma reachable_requestTree: "reachable requestTree"
  unfolding requestTree_def
  by (intro reachable_twoScopes reachable_newContainer)
    (simp_all add: example_defs validator_defs)

lemma reachable_nullTree: "reachable nullTree"
  unfolding nullTree_def
  by (intro reachable_twoScopes reachable_newContainer)
    (simp_all add: example_defs validator_defs)

lemma reachable_unconfigured: "reachable (newContainer (assemble unconfigured))"
  by (intro reachable_newContainer) (simp_all add: example_defs validator_defs)

lemma map_of_dbTree:
  "map_of (registrations dbTree) (Class ''Db'') = Some (useClass ''Db'' singleton [])"
  by (simp add: dbTree_def dbOnly_def assemble_def has_def)

lemma map_of_requestTree:
  "map_of (registrations requestTree) (Class ''Request'') = Some (useClass ''Request'' scoped [])"
  by (simp add: requestTree_def requestOnly_def assemble_def has_def)

lemma dbTree_get: "get n [1] (Class ''Db'') dbTree = Some (Inr (Obj 0, dbResolved))"
proof -
  have "get n [1] (Class ''Db'') dbTree =
     Some (Inr (Obj (length (heap dbTree)),
                remember [1] (Class ''Db'') (useClass ''Db'' singleton [])
                  (Obj (length (heap dbTree)))
                  (snd (construct (Ctor ''Db'' PlainClass) [] dbTree))))"
    by (rule get_leaf)
      (simp_all add: map_of_dbTree, simp_all add: dbTree_def useClass_def getScopedInstance_falsy cached_def)
  then show ?thesis
    by (simp add: dbTree_def dbResolved_def remember_def useClass_def)
qed

lemma get_factory:
  assumes "map_of (registrations st) i = Some r" "constructor r = None" "factory r = Some f"
    "collectionDependencies r = None"
    "lifetime r = transient \<or> \<not> truthy (getScopedInstance this i st)"
  shows "get n this i st =
     andThen (runFactory (f (Cont this)) (nestedGet n this) st)
       (\<lambda>v s. ok v (remember this i r v s))"
  using assms
  by (simp add: get_miss createInstance_def instantiate_def populate_def)

lemma fresh_tree_cached [simp]: "cached c i (twoScopes (newContainer rs)) = Undefined"
  by (simp add: cached_def)

lemma map_of_nullConfig:
  "map_of (assemble nullConfig) (Class ''Config'') =
     Some (useFactory nullFactory singleton)"
  by (simp add: nullConfig_def assemble_def has_def)

lemma get_nullConfig:
  assumes "registrations st = assemble nullConfig"
    and "\<not> truthy (getScopedInstance this (Class ''Config'') st)"
  shows "get n this (Class ''Config'') st =
     Some (Inr (Null,
       setInstance [] (Class ''Config'') Null (snd (construct (Ctor ''Probe'' PlainClass) [] st))))"
  using assms get_factory [of st "Class ''Config''" _ _ this n, OF _ _ _ _ disjI2]
  by (simp add: map_of_nullConfig useFactory_def nullFactory_def case_prod_beta remember_def
      ok_def)

lemma nullTree_get: "get n [] (Class ''Config'') nullTree = Some (Inr (Null, nullResolved))"
  unfolding nullResolved_def
  by (rule get_nullConfig) (simp_all add: nullTree_def)

lemma nullResolved_get:
  "get n this (Class ''Config'') nullResolved =
     Some (Inr (Null,
       setInstance [] (Class ''Config'') Null
         (snd (construct (Ctor ''Probe'' PlainClass) [] nullResolved))))"
  by (rule get_nullConfig)
    (simp_all add: nullResolved_def nullTree_def getScopedInstance_falsy cached_def)

lemma get_useClass_leaf:
  assumes "map_of (registrations st) i = Some (useClass n l [])"
    and "l = transient \<or> \<not> truthy (getScopedInstance this i st)"
  shows "get k this i st =
     Some (Inr (Obj (length (heap st)),
                remember this i (useClass n l []) (Obj (length (heap st)))
                  (snd (construct (Ctor n PlainClass) [] st))))"
  by (rule get_leaf) (use assms in \<open>simp_all add: useClass_def\<close>)

lemma requestTree_get:
  "get n [1] (Class ''Request'') requestTree = Some (Inr (Obj 0, requestResolved1))"
  using get_useClass_leaf [of requestTree "Class ''Request''" "''Request''" scoped "[1]" n]
  by (simp add: map_of_requestTree)
    (simp add: requestTree_def requestResolved1_def getScopedInstance_falsy remember_def
      useClass_def)

lemma map_of_requestResolved1:
  "map_of (registrations requestResolved1) (Class ''Request'') =
     Some (useClass ''Request'' scoped [])"
  using map_of_requestTree by (simp add: requestResolved1_def)

lemma requestResolved1_get:
  "get n [2] (Class ''Request'') requestResolved1 = Some (Inr (Obj 1, requestResolved2))"
  using get_useClass_leaf [of requestResolved1 "Class ''Request''" "''Request''" scoped "[2]" n]
  by (simp add: map_of_requestResolved1)
    (simp add: requestTree_def requestResolved1_def requestResolved2_def
      getScopedInstance_falsy cached_def remember_def useClass_def)

lemma root_get_request:
  "get n [] (Class ''Request'') requestTree =
     Some (Inr (Obj 0,
       setInstance [] (Class ''Request'') (Obj 0)
         (snd (construct (Ctor ''Request'' PlainClass) [] requestTree))))"
  using get_useClass_leaf [of requestTree "Class ''Request''" "''Request''" scoped "[]" n]
  by (simp add: map_of_requestTree)
    (simp add: requestTree_def remember_def useClass_def)

lemma inherited_request:
  assumes "this = [1] \<or> this = [2]"
  shows "get n this (Class ''Request'')
      (setInstance [] (Class ''Request'') (Obj 0)
         (snd (construct (Ctor ''Request'' PlainClass) [] requestTree))) =
     Some (Inr (Obj 0,
       setInstance [] (Class ''Request'') (Obj 0)
         (snd (construct (Ctor ''Request'' PlainClass) [] requestTree))))"
proof -
  let ?st = "setInstance [] (Class ''Request'') (Obj 0)
         (snd (construct (Ctor ''Request'' PlainClass) [] requestTree))"
  have "map_of (registrations ?st) (Class ''Request'') = Some (useClass ''Request'' scoped [])"
    using map_of_requestTree by simp
  moreover have "getScopedInstance this (Class ''Request'') ?st = Obj 0"
    using assms by (auto simp: requestTree_def cached_def)
  ultimately show ?thesis
    using get_hit [of ?st "Class ''Request''" "useClass ''Request'' scoped []" this n]
    by (simp add: useClass_def)
qed

lemma map_of_handlerTree:
  "map_of (registrations handlerTree) (Class ''Logger'') = Some (useClass ''Logger'' singleton [])"
  "map_of (registrations handlerTree) (Class ''Handler'') =
     Some (useClass ''Handler'' transient [Class ''Logger''])"
  "map_of (registrations handlerTree) (Class ''Token'') = Some (useClass ''Token'' transient [])"
  by (simp_all add: handlerTree_def handlerAndLogger_def assemble_def has_def)

lemma handlerTree_get:
  "get (Suc n) [] (Class ''Handler'') handlerTree =
     Some (Inr (Obj 1, snd (construct (Ctor ''Handler'' PlainClass) [Obj 0] loggerResolved)))"
proof -
  have "get n [] (Class ''Logger'') handlerTree = Some (Inr (Obj 0, loggerResolved))"
    using get_useClass_leaf [of handlerTree "Class ''Logger''" "''Logger''" singleton "[]" n]
    by (simp add: map_of_handlerTree)
      (simp add: handlerTree_def loggerResolved_def cached_def remember_def useClass_def)
  then show ?thesis
    using get_miss [of handlerTree "Class ''Handler''" _ "[]" "Suc n", OF map_of_handlerTree(2)]
    by (simp add: useClass_def createInstance_def instantiate_def populate_def remember_def
        nestedGet_def case_prod_beta ok_def)
      (simp add: loggerResolved_def handlerTree_def)
qed

lemma handlerResolved1_get:
  "get (Suc n) [] (Class ''Handler'') handlerResolved1 = Some (Inr (Obj 2, handlerResolved2))"
proof -
  have r: "map_of (registrations handlerResolved1) (Class ''Logger'') =
      Some (useClass ''Logger'' singleton [])"
    "map_of (registrations handlerResolved1) (Class ''Handler'') =
      Some (useClass ''Handler'' transient [Class ''Logger''])"
    using map_of_handlerTree by (simp_all add: handlerResolved1_def loggerResolved_def)
  have "getScopedInstance [] (Class ''Logger'') handlerResolved1 = Obj 0"
    by (simp add: handlerResolved1_def loggerResolved_def cached_def)
  then have "get n [] (Class ''Logger'') handlerResolved1 = Some (Inr (Obj 0, handlerResolved1))"
    using get_hit [OF r(1), of "[]" n] by (simp add: useClass_def)
  then show ?thesis
    using get_miss [OF r(2), of "[]" "Suc n"]
    by (simp add: useClass_def createInstance_def instantiate_def populate_def remember_def
        nestedGet_def case_prod_beta ok_def)
      (simp add: handlerResolved2_def handlerResolved1_def loggerResolved_def handlerTree_def)
qed




lemma map_of_placeTree:
  "map_of (registrations placeTree) (Class ''Place'') = Some (useFactory rootOnlyFactory scoped)"
  by (simp add: placeTree_def placeConfig_def assemble_def has_def)

lemma get_place:
  assumes "registrations st = registrations placeTree"
    and "\<not> truthy (getScopedInstance this (Class ''Place'') st)"
  shows "get n this (Class ''Place'') st =
     Some (Inr (if this = [] then Str ''root'' else Null,
       setInstance this (Class ''Place'') (if this = [] then Str ''root'' else Null) st))"
  using assms map_of_placeTree
    get_factory [of st "Class ''Place''" "useFactory rootOnlyFactory scoped" rootOnlyFactory this n]
  by (simp add: useFactory_def rootOnlyFactory_def remember_def ok_def)

lemma placeTree_get: "get n [1] (Class ''Place'') placeTree = Some (Inr (Null, placeResolved1))"
  using get_place [of placeTree "[1]" n]
  by (simp add: placeResolved1_def getScopedInstance_falsy) (simp add: placeTree_def)

lemma placeResolved1_get:
  "get n [] (Class ''Place'') placeResolved1 = Some (Inr (Str ''root'', placeResolved2))"
  using get_place [of placeResolved1 "[]" n]
  by (simp add: placeResolved2_def) (simp add: placeResolved1_def placeTree_def cached_def)

lemma placeResolved2_get:
  "get n [1] (Class ''Place'') placeResolved2 = Some (Inr (Str ''root'', placeResolved2))"
proof -
  have "map_of (registrations placeResolved2) (Class ''Place'') =
      Some (useFactory rootOnlyFactory scoped)"
    using map_of_placeTree by (simp add: placeResolved2_def placeResolved1_def)
  moreover have "getScopedInstance [1] (Class ''Place'') placeResolved2 = Str ''root''"
    by (simp add: placeResolved2_def placeResolved1_def placeTree_def cached_def)
  ultimately show ?thesis
    using get_hit [of placeResolved2 "Class ''Place''" "useFactory rootOnlyFactory scoped" "[1]" n]
    by (simp add: useFactory_def)
qed

lemma placeResolved2_createInstance:
  "createInstance g [1] (Class ''Place'') (useFactory rootOnlyFactory scoped) placeResolved2 =
     Some (Inr (Null, setInstance [1] (Class ''Place'') Null placeResolved2))"
  by (simp add: createInstance_def instantiate_def populate_def remember_def useFactory_def
      rootOnlyFactory_def ok_def)



subsection \<open>Failing resolutions\<close>

lemma reachable_no_cached_invalid:
  assumes "reachable st" "map_of (registrations st) i = Some r"
    "constructor r = None" "factory r = None" "\<not> truthy (instance' r)"
  shows "\<not> truthy (getScopedInstance this i st)"
proof -
  from assms(1) have u: "cachedAreUsable st" by (simp add: reachable_invariants)
  have "\<not> truthy (cached c i st)" for c
  proof
    assume t: "truthy (cached c i st)"
    then have "instances st c i = Some (cached c i st)" by (rule truthy_cached)
    with t u obtain r' where "map_of (registrations st) i = Some r'" and "usable r'"
      unfolding cachedAreUsable_def by blast
    with assms(2-5) show False by (simp add: usable_def)
  qed
  then show ?thesis by (simp add: getScopedInstance_falsy)
qed

text \<open>
  Claim C8. In every reachable state, \<open>get\<close> of an identifier that is absent from the
  registration map fails with \<open>RegistrationNotFound\<close>, and \<open>get\<close> of an identifier whose
  registration has no constructor, no factory and no instance fails with
  \<open>InvalidRegistration\<close>. In both cases the state at the throw is the state before the
  call: no cache of any node has changed.
\<close>

theorem get_failure_leaves_state:
  assumes "reachable st"
  shows "(map_of (registrations st) i = None \<longrightarrow>
            get n this i st = Some (Inl (RegistrationNotFound (name i), st))) \<and>
         (\<forall>r. map_of (registrations st) i = Some r \<and> constructor r = None \<and>
              factory r = None \<and> \<not> truthy (instance' r) \<longrightarrow>
            get n this i st = Some (Inl (InvalidRegistration (name i), st)))"
proof (intro conjI impI allI)
  assume "map_of (registrations st) i = None"
  then show "get n this i st = Some (Inl (RegistrationNotFound (name i), st))"
    by (simp add: get_eq getBody_absent)
next
  fix r
  assume h: "map_of (registrations st) i = Some r \<and> constructor r = None \<and>
              factory r = None \<and> \<not> truthy (instance' r)"
  with assms have "\<not> truthy (getScopedInstance this i st)"
    by (intro reachable_no_cached_invalid [where r = r]) auto
  with h show "get n this i st = Some (Inl (InvalidRegistration (name i), st))"
    by (simp add: get_miss createInstance_invalid)
qed

theorem get_failure_leaves_state_witness:
  "reachable (newContainer (assemble unconfigured)) \<and>
   map_of (assemble unconfigured) (Class ''Absent'') = None \<and>
   get 0 [] (Class ''Absent'') (newContainer (assemble unconfigured)) =
     Some (Inl (RegistrationNotFound ''Absent'', newContainer (assemble unconfigured))) \<and>
   map_of (assemble unconfigured) (Class ''Unconfigured'') = Some noStrategy \<and>
   get 0 [] (Class ''Unconfigured'') (newContainer (assemble unconfigured)) =
     Some (Inl (InvalidRegistration ''Unconfigured'', newContainer (assemble unconfigured)))"
proof -
  have 1: "map_of (assemble unconfigured) (Class ''Absent'') = None"
    by (simp add: unconfigured_def assemble_def has_def)
  have 2: "map_of (assemble unconfigured) (Class ''Unconfigured'') = Some noStrategy"
    by (simp add: unconfigured_def assemble_def has_def)
  have 3: "constructor noStrategy = None \<and> factory noStrategy = None \<and>
           \<not> truthy (instance' noStrategy)"
    by (simp add: noStrategy_def)
  from get_failure_leaves_state [OF reachable_unconfigured, of "Class ''Absent''" 0 "[]"]
    get_failure_leaves_state [OF reachable_unconfigured, of "Class ''Unconfigured''" 0 "[]"]
    reachable_unconfigured 1 2 3
  show ?thesis by simp
qed

subsection \<open>The registration of the container itself\<close>




subsection \<open>Falsy instances\<close>

text \<open>After a construction that produced a falsy value, the chain of the node still
  holds no truthy value.\<close>

lemma falsy_construction_keeps_chain_falsy:
  assumes r: "map_of (registrations st) i = Some r"
    and miss: "\<not> truthy (getScopedInstance this i st)"
    and f: "frame this st st2"
    and v: "\<not> truthy v"
  shows "\<not> truthy (getScopedInstance this i (remember this i r v st2))"
  unfolding getScopedInstance_falsy
proof
  fix c
  assume c: "c \<in> set (chain this)"
  from miss c have old: "\<not> truthy (cached c i st)"
    by (simp add: getScopedInstance_falsy)
  show "\<not> truthy (cached c i (remember this i r v st2))"
  proof (cases "(lifetime r = singleton \<and> c = []) \<or> (lifetime r = scoped \<and> c = this)")
    case True
    then have "instances (remember this i r v st2) c i = Some v"
      by (auto simp: instances_remember)
    with v show ?thesis by simp
  next
    case False
    then have "instances (remember this i r v st2) c i = instances st2 c i"
      by (auto simp: instances_remember split: lifetime.splits)
    also from f r False have "\<dots> = instances st c i"
      by (intro frame_entry [where r = r]) auto
    finally show ?thesis using old by (simp add: cached_def)
  qed
qed

lemma falsy_get_was_construction:
  assumes "map_of (registrations st) i = Some r" "lifetime r \<noteq> transient"
    and "get n this i st = Some (Inr (v, st'))" "\<not> truthy v"
  obtains st2 where "\<not> truthy (getScopedInstance this i st)" "frame this st st2"
    "st' = remember this i r v st2"
  using assms(1,3)
proof (cases rule: get_returns_cases)
  case hit
  with assms(4) show ?thesis by simp
next
  case (constructed st1 st2)
  with assms(2) that show ?thesis
    by (auto intro: frame_trans)
qed

text \<open>
  Claim C10, as amended. The cache is read for a truthy value, not for the presence of
  a key. For a registration that is not transient, \<open>get\<close> on a node runs \<open>createInstance\<close>
  when no node of its chain holds a truthy value for the identifier, and otherwise
  returns the value of the first node that holds one and leaves the state as it is. When
  a \<open>get\<close> returns a falsy value, the value is stored under the identifier (in the root
  for a singleton, in the node for a scoped registration) and still no node of the chain
  holds a truthy value: the next \<open>get\<close> on that node runs \<open>createInstance\<close> again, so
  does a scope created under the node afterwards, and so does, for a singleton in a
  reachable state, every node of the tree. When a \<open>get\<close> returns a truthy value, every
  later \<open>get\<close> on that node returns it and leaves the state as it is.
\<close>

theorem cache_is_read_for_truthiness:
  assumes r: "map_of (registrations st) i = Some r" and l: "lifetime r \<noteq> transient"
  shows "(holder this i st = None \<longrightarrow>
            get n this i st = createInstance (nestedGet n this) this i r st) \<and>
         (\<forall>c. holder this i st = Some c \<longrightarrow>
            truthy (cached c i st) \<and> get n this i st = Some (Inr (cached c i st, st))) \<and>
         (\<forall>v st'. get n this i st = Some (Inr (v, st')) \<and> \<not> truthy v \<longrightarrow>
            instances st' (if lifetime r = singleton then [] else this) i = Some v \<and>
            holder this i st' = None \<and>
            (\<forall>m. get m this i st' = createInstance (nestedGet m this) this i r st') \<and>
            (\<forall>m. get m (fst (createScopedContainer this st')) i
                    (snd (createScopedContainer this st')) =
                  createInstance (nestedGet m (fst (createScopedContainer this st')))
                    (fst (createScopedContainer this st')) i r
                    (snd (createScopedContainer this st'))) \<and>
            (reachable st \<and> lifetime r = singleton \<longrightarrow>
               (\<forall>s m. get m s i st' = createInstance (nestedGet m s) s i r st'))) \<and>
         (\<forall>v st'. get n this i st = Some (Inr (v, st')) \<and> truthy v \<longrightarrow>
            (\<forall>m. get m this i st' = Some (Inr (v, st'))))"
proof (intro conjI impI allI)
  assume "holder this i st = None"
  with r show "get n this i st = createInstance (nestedGet n this) this i r st"
    by (simp add: holder_None get_miss)
next
  fix c
  assume h: "holder this i st = Some c"
  then show "truthy (cached c i st)" by (rule holder_Some)
  from holder_Some [OF h] r l show "get n this i st = Some (Inr (cached c i st, st))"
    using get_hit [of st i r this n] by simp
next
  fix v st'
  assume h: "get n this i st = Some (Inr (v, st')) \<and> truthy v"
  with r l have "getScopedInstance this i st' = v"
    by (intro cached_is_served [where st = st and r = r and n = n]) auto
  moreover from h r have "map_of (registrations st') i = Some r"
    by (auto dest!: get_returns_frame simp: frame_registrations)
  ultimately show "get m this i st' = Some (Inr (v, st'))" for m
    using get_hit [of st' i r this m] l h by simp
next
  fix v st'
  assume h: "get n this i st = Some (Inr (v, st')) \<and> \<not> truthy v"
  then have g: "get n this i st = Some (Inr (v, st'))" and v: "\<not> truthy v" by auto
  from r l g v obtain st2 where miss: "\<not> truthy (getScopedInstance this i st)"
    and f: "frame this st st2" and st': "st' = remember this i r v st2"
    by (rule falsy_get_was_construction)
  from f r have r2: "map_of (registrations st2) i = Some r"
    by (simp add: frame_registrations)
  then have r': "map_of (registrations st') i = Some r"
    by (simp add: st')
  have still: "\<not> truthy (getScopedInstance this i st')"
    unfolding st' using r miss f v by (rule falsy_construction_keeps_chain_falsy)
  show 1: "instances st' (if lifetime r = singleton then [] else this) i = Some v"
    using l by (cases "lifetime r") (simp_all add: st' instances_remember)
  from still show "holder this i st' = None"
    by (simp add: holder_None)
  show "get m this i st' = createInstance (nestedGet m this) this i r st'" for m
    using r' still by (simp add: get_miss)
  let ?ch = "fst (createScopedContainer this st')"
  let ?st = "snd (createScopedContainer this st')"
  have "getScopedInstance this i ?st = getScopedInstance this i st'"
    by (rule getScopedInstance_cong) auto
  with still have "\<not> truthy (getScopedInstance ?ch i ?st)"
    by (simp add: cached_def Let_def)
  with r' show "get m ?ch i ?st = createInstance (nestedGet m ?ch) ?ch i r ?st" for m
    by (simp add: get_miss)
  show "get m s i st' = createInstance (nestedGet m s) s i r st'"
    if "reachable st \<and> lifetime r = singleton" for s m
  proof -
    from that have reach: "reachable st" and sing: "lifetime r = singleton" by auto
    from reach have "singletonsAtRoot st" by (simp add: reachable_invariants)
    moreover from g have "frame this st st'"
      by (rule get_returns_frame)
    ultimately have "singletonsAtRoot st'" by (rule frame_singletonsAtRoot [rotated])
    with r' sing have none: "instances st' c i = None" if "c \<noteq> []" for c
      using that unfolding singletonsAtRoot_def by blast
    have "getScopedInstance s i st' = cached [] i st'"
      by (rule getScopedInstance_root) (simp add: none)
    also from 1 sing have "\<dots> = v" by simp
    finally have "\<not> truthy (getScopedInstance s i st')" using v by simp
    with r' show ?thesis by (simp add: get_miss)
  qed
qed

theorem cache_is_read_for_truthiness_witness:
  "map_of (registrations nullTree) (Class ''Config'') = Some (useFactory nullFactory singleton) \<and>
   reachable nullTree \<and>
   get 0 [] (Class ''Config'') nullTree = Some (Inr (Null, nullResolved)) \<and>
   \<not> truthy Null \<and>
   instances nullResolved [] (Class ''Config'') = Some Null \<and>
   holder [] (Class ''Config'') nullResolved = None \<and>
   get 0 [] (Class ''Config'') nullResolved =
     createInstance (nestedGet 0 []) [] (Class ''Config'')
       (useFactory nullFactory singleton) nullResolved \<and>
   get 0 [2] (Class ''Config'') nullResolved =
     createInstance (nestedGet 0 [2]) [2] (Class ''Config'')
       (useFactory nullFactory singleton) nullResolved \<and>
   allocated (get 0 [2] (Class ''Config'') nullResolved) = Some 2 \<and>
   map_of (registrations placeResolved2) (Class ''Place'') =
     Some (useFactory rootOnlyFactory scoped) \<and>
   instances placeResolved2 [1] (Class ''Place'') = Some Null \<and>
   holder [1] (Class ''Place'') placeResolved2 = Some [] \<and>
   cached [] (Class ''Place'') placeResolved2 = Str ''root'' \<and>
   get 0 [1] (Class ''Place'') placeResolved2 =
     Some (Inr (cached [] (Class ''Place'') placeResolved2, placeResolved2)) \<and>
   map_of (registrations dbTree) (Class ''Db'') = Some (useClass ''Db'' singleton []) \<and>
   get 0 [1] (Class ''Db'') dbTree = Some (Inr (Obj 0, dbResolved)) \<and>
   truthy (Obj 0) \<and>
   get 0 [1] (Class ''Db'') dbResolved = Some (Inr (Obj 0, dbResolved))"
proof -
  let ?r = "useFactory nullFactory singleton"
  let ?p = "useFactory rootOnlyFactory scoped"
  let ?d = "useClass ''Db'' singleton []"
  have 1: "map_of (registrations nullTree) (Class ''Config'') = Some ?r"
    by (simp add: nullTree_def map_of_nullConfig)
  have 2: "lifetime ?r \<noteq> transient" "lifetime ?p \<noteq> transient" "lifetime ?d \<noteq> transient"
    by (simp_all add: useFactory_def useClass_def)
  have sing: "lifetime ?r = singleton"
    by (simp add: useFactory_def)
  have 3: "\<not> truthy Null" "truthy (Obj 0)" by simp_all
  have 4: "allocated (get 0 [2] (Class ''Config'') nullResolved) = Some 2"
    by (simp add: nullResolved_get stateAfter_def allocated_def)
      (simp add: nullResolved_def nullTree_def)
  have 5: "map_of (registrations placeResolved2) (Class ''Place'') = Some ?p"
    using map_of_placeTree by (simp add: placeResolved2_def placeResolved1_def)
  have 6: "instances placeResolved2 [1] (Class ''Place'') = Some Null"
    "holder [1] (Class ''Place'') placeResolved2 = Some []"
    "cached [] (Class ''Place'') placeResolved2 = Str ''root''"
    by (simp_all add: holder_def placeResolved2_def placeResolved1_def placeTree_def cached_def)
  note null = cache_is_read_for_truthiness [OF 1 2(1), where this = "[]" and n = 0,
      THEN conjunct2, THEN conjunct2, THEN conjunct1, THEN spec, THEN spec, THEN mp,
      OF conjI [OF nullTree_get [of 0] 3(1)]]
  have a1: "instances nullResolved [] (Class ''Config'') = Some Null"
    using null [THEN conjunct1] by (simp add: sing)
  note a2 = null [THEN conjunct2, THEN conjunct1]
  note a3 = null [THEN conjunct2, THEN conjunct2, THEN conjunct1, THEN spec, of 0]
  note a4 = null [THEN conjunct2, THEN conjunct2, THEN conjunct2, THEN conjunct2, THEN mp,
      OF conjI [OF reachable_nullTree sing], THEN spec, THEN spec, of 0 "[2]"]
  note b = cache_is_read_for_truthiness [OF 5 2(2), where this = "[1]" and n = 0,
      THEN conjunct2, THEN conjunct1, THEN spec, THEN mp, OF 6(2), THEN conjunct2]
  note c = cache_is_read_for_truthiness [OF map_of_dbTree 2(3), where this = "[1]" and n = 0,
      THEN conjunct2, THEN conjunct2, THEN conjunct2, THEN spec, THEN spec, THEN mp,
      OF conjI [OF dbTree_get [of 0] 3(2)], THEN spec, of 0]
  show ?thesis
    by (intro conjI 1 reachable_nullTree nullTree_get 3 a1 a2 a3 a4 4 5 6 b map_of_dbTree
        dbTree_get c)
qed

text \<open>
  Claim C10 as stated fails: the factory of the scoped \<open>Place\<close> returns \<open>null\<close> in scope
  \<open>[1]\<close>, which stores it; the root then resolves \<open>Place\<close> to a string; and the next
  \<open>get\<close> on scope \<open>[1]\<close> returns the string of the root and leaves the state as it is,
  where \<open>createInstance\<close> would have returned \<open>null\<close>.
\<close>

theorem null_in_a_scope_gives_way_to_the_parent:
  "map_of (registrations placeTree) (Class ''Place'') = Some (useFactory rootOnlyFactory scoped) \<and>
   get 0 [1] (Class ''Place'') placeTree = Some (Inr (Null, placeResolved1)) \<and>
   get 0 [] (Class ''Place'') placeResolved1 = Some (Inr (Str ''root'', placeResolved2)) \<and>
   instances placeResolved2 [1] (Class ''Place'') = Some Null \<and>
   get 0 [1] (Class ''Place'') placeResolved2 = Some (Inr (Str ''root'', placeResolved2)) \<and>
   returned (createInstance (nestedGet 0 [1]) [1] (Class ''Place'')
               (useFactory rootOnlyFactory scoped) placeResolved2) = Some Null"
proof (intro conjI)
  show "instances placeResolved2 [1] (Class ''Place'') = Some Null"
    by (simp add: placeResolved2_def placeResolved1_def)
  show "returned (createInstance (nestedGet 0 [1]) [1] (Class ''Place'')
               (useFactory rootOnlyFactory scoped) placeResolved2) = Some Null"
    unfolding placeResolved2_createInstance by (simp add: returned_def)
qed (rule map_of_placeTree placeTree_get placeResolved1_get placeResolved2_get)+

subsection \<open>Singletons\<close>

text \<open>
  Claim C5, as amended. In a reachable state, for an identifier registered as a
  singleton: \<open>get\<close> on a node returns when the identifier is resolvable; what it returns
  is truthy unless the registration is a factory; and when \<open>get\<close> on some node returns a
  truthy instance, the instance is in the cache of the root, and \<open>get\<close> on every node of
  the tree returns that instance and leaves the state as it is: nothing is constructed
  again.
\<close>

theorem singleton_is_shared:
  assumes reach: "reachable st"
    and r: "map_of (registrations st) i = Some r" and sing: "lifetime r = singleton"
  shows "(resolvable (registrations st) n i \<longrightarrow>
            (\<exists>v st'. get n s1 i st = Some (Inr (v, st')))) \<and>
         (constructor r \<noteq> None \<or> factory r = None \<longrightarrow>
            (\<forall>v st'. get n s1 i st = Some (Inr (v, st')) \<longrightarrow> truthy v)) \<and>
         (\<forall>v st'. get n s1 i st = Some (Inr (v, st')) \<and> truthy v \<longrightarrow>
            instances st' [] i = Some v \<and>
            (\<forall>s2 m. get m s2 i st' = Some (Inr (v, st'))))"
proof (intro conjI impI allI)
  assume "resolvable (registrations st) n i"
  then show "\<exists>v st'. get n s1 i st = Some (Inr (v, st'))"
    by (rule get_total)
next
  fix v st'
  assume "constructor r \<noteq> None \<or> factory r = None"
    and "get n s1 i st = Some (Inr (v, st'))"
  with r show "truthy v" by (rule get_returns_truthy)
next
  fix v st'
  assume h: "get n s1 i st = Some (Inr (v, st')) \<and> truthy v"
  then have g: "get n s1 i st = Some (Inr (v, st'))" and v: "truthy v" by auto
  from reach have "singletonsAtRoot st" by (simp add: reachable_invariants)
  moreover from g have f: "frame s1 st st'"
    using get_frame [of n s1 i st] by (auto dest: endsD_returned)
  ultimately have "singletonsAtRoot st'" by (rule frame_singletonsAtRoot [rotated])
  moreover from f r have r': "map_of (registrations st') i = Some r"
    by (simp add: frame_registrations)
  ultimately have none: "instances st' c i = None" if "c \<noteq> []" for c
    using that sing unfolding singletonsAtRoot_def by blast
  have at_root: "getScopedInstance s i st' = cached [] i st'" for s
    by (rule getScopedInstance_root) (simp add: none)
  show root: "instances st' [] i = Some v"
    using r g
  proof (cases rule: get_returns_cases)
    case hit
    with v at_root [of s1] show ?thesis
      by (auto dest: truthy_cached)
  next
    case (constructed st1 st2)
    with sing show ?thesis by (simp add: instances_remember)
  qed
  fix s2 m
  show "get m s2 i st' = Some (Inr (v, st'))"
    using get_hit [of st' i r s2 m] r' sing v root by (simp add: at_root)
qed

theorem singleton_is_shared_witness:
  "reachable dbTree \<and>
   resolvable (registrations dbTree) 0 (Class ''Db'') \<and>
   get 0 [1] (Class ''Db'') dbTree = Some (Inr (Obj 0, dbResolved)) \<and>
   instances dbResolved [] (Class ''Db'') = Some (Obj 0) \<and>
   get 0 [2] (Class ''Db'') dbResolved = Some (Inr (Obj 0, dbResolved)) \<and>
   get 0 [] (Class ''Db'') dbResolved = Some (Inr (Obj 0, dbResolved))"
proof -
  have 3: "lifetime (useClass ''Db'' singleton []) = singleton"
    by (simp add: useClass_def)
  have 4: "resolvable (registrations dbTree) 0 (Class ''Db'')"
    by (simp add: resolvableWith_def map_of_dbTree) (simp add: useClass_def collectionIds_def)
  from singleton_is_shared [OF reachable_dbTree map_of_dbTree 3, of 0 "[1]"]
  have "get 0 [1] (Class ''Db'') dbTree = Some (Inr (Obj 0, dbResolved)) \<and> truthy (Obj 0) \<longrightarrow>
      instances dbResolved [] (Class ''Db'') = Some (Obj 0) \<and>
      (\<forall>s2 m. get m s2 (Class ''Db'') dbResolved = Some (Inr (Obj 0, dbResolved)))"
    by blast
  with dbTree_get [of 0] reachable_dbTree 4 show ?thesis by simp
qed

text \<open>
  Claim C5 as stated fails for a singleton whose factory returns \<open>null\<close>: two calls of
  \<open>get\<close> on the root run the factory twice, as the two probes on the heap show.
\<close>

theorem singleton_null_is_constructed_twice:
  "map_of (registrations nullTree) (Class ''Config'') = Some (useFactory nullFactory singleton) \<and>
   returned (getTimes 0 2 [] (Class ''Config'') nullTree) = Some [Null, Null] \<and>
   length (heap nullTree) = 0 \<and>
   allocated (get 0 [] (Class ''Config'') nullTree) = Some 1 \<and>
   allocated (getTimes 0 2 [] (Class ''Config'') nullTree) = Some 2"
proof -
  have "getTimes 0 2 [] (Class ''Config'') nullTree =
      Some (Inr ([Null, Null],
        setInstance [] (Class ''Config'') Null
          (snd (construct (Ctor ''Probe'' PlainClass) [] nullResolved))))"
    by (simp add: numeral_2_eq_2 nullTree_get nullResolved_get ok_def)
  then show ?thesis
    by (simp add: returned_def stateAfter_def allocated_def nullResolved_def nullTree_get)
      (simp add: nullTree_def map_of_nullConfig)
qed

subsection \<open>Overrides\<close>

lemma override_seen_outside:
  assumes "this \<notin> set (chain s2)"
  shows "getScopedInstance s2 i (override this i v st) = getScopedInstance s2 i st"
  by (rule getScopedInstance_cong) (use assms in auto)

lemma override_registration:
  "\<exists>r. map_of (registrations (override this i v st)) i = Some r \<and> lifetime r = scoped"
  by (simp add: map_of_override)

text \<open>
  Claim C2, as amended. After scope \<open>s\<close> called \<open>override\<close> with an object, \<open>get\<close> on \<open>s\<close>
  returns that object. A sibling of \<open>s\<close> whose cache chain (its own cache, then its
  ancestors') held a truthy instance before the override still receives that instance.
  A scope created under \<open>s\<close> after the override receives the overriding object.
\<close>

theorem override_reaches_the_overriding_scope:
  assumes v: "truthy v"
  shows "(\<forall>n. get n s i (override s i v st) = Some (Inr (v, override s i v st))) \<and>
         (\<forall>n k1 k2 p. s = k1 # p \<and> k1 \<noteq> k2 \<and> truthy (getScopedInstance (k2 # p) i st) \<longrightarrow>
            get n (k2 # p) i (override s i v st) =
              Some (Inr (getScopedInstance (k2 # p) i st, override s i v st))) \<and>
         (\<forall>n. get n (fst (createScopedContainer s (override s i v st))) i
                 (snd (createScopedContainer s (override s i v st))) =
               Some (Inr (v, snd (createScopedContainer s (override s i v st)))))"
proof (intro conjI allI impI)
  obtain r where r: "map_of (registrations (override s i v st)) i = Some r"
    and l: "lifetime r = scoped"
    using override_registration by blast
  have here: "getScopedInstance s i (override s i v st) = v"
    using v getScopedInstance_here [of s i "override s i v st"] by simp
  {
    fix n
    show "get n s i (override s i v st) = Some (Inr (v, override s i v st))"
      using get_hit [OF r, of s n] l v here by simp
  next
    fix n k1 k2 p
    assume h: "s = k1 # p \<and> k1 \<noteq> k2 \<and> truthy (getScopedInstance (k2 # p) i st)"
    then have "s \<notin> set (chain (k2 # p))" by simp
    then have "getScopedInstance (k2 # p) i (override s i v st) = getScopedInstance (k2 # p) i st"
      by (rule override_seen_outside)
    with h show "get n (k2 # p) i (override s i v st) =
              Some (Inr (getScopedInstance (k2 # p) i st, override s i v st))"
      using get_hit [OF r, of "k2 # p" n] l by simp
  next
    fix n
    let ?ch = "fst (createScopedContainer s (override s i v st))"
    let ?st = "snd (createScopedContainer s (override s i v st))"
    have "getScopedInstance s i ?st = getScopedInstance s i (override s i v st)"
      by (rule getScopedInstance_cong) auto
    with here v have "getScopedInstance ?ch i ?st = v"
      by (simp add: cached_def Let_def)
    moreover have "map_of (registrations ?st) i = Some r"
      using r by simp
    ultimately show "get n ?ch i ?st = Some (Inr (v, ?st))"
      using get_hit [of ?st i r ?ch n] l v by simp
  }
qed

theorem override_reaches_the_overriding_scope_witness:
  "truthy (Ext 0) \<and>
   get 0 [2] (Class ''Request'') (override [2] (Class ''Request'') (Ext 0) requestResolved1) =
     Some (Inr (Ext 0, override [2] (Class ''Request'') (Ext 0) requestResolved1)) \<and>
   getScopedInstance [1] (Class ''Request'') requestResolved1 = Obj 0 \<and>
   get 0 [1] (Class ''Request'') (override [2] (Class ''Request'') (Ext 0) requestResolved1) =
     Some (Inr (Obj 0, override [2] (Class ''Request'') (Ext 0) requestResolved1)) \<and>
   fst (createScopedContainer [2]
          (override [2] (Class ''Request'') (Ext 0) requestResolved1)) = [3, 2] \<and>
   get 0 [3, 2] (Class ''Request'')
       (snd (createScopedContainer [2]
          (override [2] (Class ''Request'') (Ext 0) requestResolved1))) =
     Some (Inr (Ext 0,
       snd (createScopedContainer [2]
          (override [2] (Class ''Request'') (Ext 0) requestResolved1))))"
proof -
  have 1: "truthy (Ext 0)" by simp
  have 2: "getScopedInstance [1] (Class ''Request'') requestResolved1 = Obj 0"
    by (simp add: requestResolved1_def cached_def)
  have 3: "fst (createScopedContainer [2]
          (override [2] (Class ''Request'') (Ext 0) requestResolved1)) = [3, 2]"
    by (simp add: requestResolved1_def requestTree_def)
  from override_reaches_the_overriding_scope [OF 1, of "[2]" "Class ''Request''" requestResolved1]
    1 2 3
  show ?thesis by (simp del: createScopedContainer_fields)
qed

text \<open>
  Claim C2 as stated fails: \<open>Db\<close> is registered with a class, scope \<open>[2]\<close> never calls
  \<open>override\<close> and would receive an instance of the class, but after scope \<open>[1]\<close> has
  overridden \<open>Db\<close> it receives the overriding object.
\<close>

theorem override_reaches_a_sibling:
  "build dbOnly = Some (Inr ([], newContainer (assemble dbOnly))) \<and>
   dbTree = twoScopes (newContainer (assemble dbOnly)) \<and>
   returned (get 0 [2] (Class ''Db'') dbTree) = Some (Obj 0) \<and>
   returned (get 0 [2] (Class ''Db'') (override [1] (Class ''Db'') (Ext 0) dbTree)) =
     Some (Ext 0)"
proof -
  have 1: "build dbOnly = Some (Inr ([], newContainer (assemble dbOnly)))"
    by (simp add: build_def example_defs validator_defs)
  have 2: "returned (get 0 [2] (Class ''Db'') dbTree) = Some (Obj 0)"
    using get_useClass_leaf [of dbTree "Class ''Db''" "''Db''" singleton "[2]" 0]
    by (simp add: map_of_dbTree)
      (simp add: dbTree_def getScopedInstance_falsy returned_def)
  have "map_of (registrations (override [1] (Class ''Db'') (Ext 0) dbTree)) (Class ''Db'') =
      Some \<lparr> constructor = None, factory = None, instance' = Ext 0, lifetime = scoped,
               dependencies = [], ctorDependencies = [], collectionDependencies = None \<rparr>"
    by (simp add: map_of_override)
  moreover have "\<not> truthy (getScopedInstance [2] (Class ''Db'') (override [1] (Class ''Db'') (Ext 0) dbTree))"
    by (simp add: getScopedInstance_falsy cached_def dbTree_def)
  ultimately have 3: "returned (get 0 [2] (Class ''Db'') (override [1] (Class ''Db'') (Ext 0) dbTree)) =
     Some (Ext 0)"
    by (simp add: get_miss createInstance_def instantiate_def populate_def returned_def ok_def)
  from 1 2 3 show ?thesis by (simp add: dbTree_def)
qed

subsection \<open>Scoped instances\<close>

lemma scoped_construction_cached_here:
  assumes r: "map_of (registrations st) i = Some r" and l: "lifetime r = scoped"
    and miss: "\<not> truthy (getScopedInstance c i st)"
    and g: "get n c i st = Some (Inr (v, st'))"
  shows "instances st' c i = Some v"
  using r g
proof (cases rule: get_returns_cases)
  case hit
  with miss show ?thesis by simp
next
  case (constructed st1 st2)
  with l show ?thesis by (simp add: instances_remember)
qed

lemma scoped_get_cached_here:
  assumes r: "map_of (registrations st) i = Some r" and l: "lifetime r = scoped"
    and g: "get n c i st = Some (Inr (v, st'))" and v: "truthy v"
  shows "getScopedInstance c i st' = v"
  using r g
proof (cases rule: get_returns_cases)
  case hit
  then show ?thesis by simp
next
  case (constructed st1 st2)
  with l have "instances st' c i = Some v" by (simp add: instances_remember)
  with v show ?thesis
    using getScopedInstance_here [of c i st'] by simp
qed

text \<open>
  Claim C6, as amended. For a scoped registration: \<open>get\<close> on two sibling scopes, one
  after the other, returns when the identifier is resolvable; when neither sibling finds
  a truthy instance in its cache chain, each caches what it receives in its own node,
  and the two receive distinct objects when the registration has a constructor; and when
  \<open>get\<close> on a node returned a truthy instance, a scope created under that node afterwards
  receives the same instance.
\<close>

theorem scoped_instances_belong_to_their_node:
  assumes r: "map_of (registrations st) i = Some r" and l: "lifetime r = scoped"
  shows "(resolvable (registrations st) n i \<longrightarrow>
            (\<exists>v1 st1 v2 st2. get n (k1 # p) i st = Some (Inr (v1, st1)) \<and>
                             get n (k2 # p) i st1 = Some (Inr (v2, st2)))) \<and>
         (\<forall>v1 st1 v2 st2 m.
            k1 \<noteq> k2 \<and>
            \<not> truthy (getScopedInstance (k1 # p) i st) \<and>
            \<not> truthy (getScopedInstance (k2 # p) i st) \<and>
            get n (k1 # p) i st = Some (Inr (v1, st1)) \<and>
            get m (k2 # p) i st1 = Some (Inr (v2, st2)) \<longrightarrow>
            instances st2 (k1 # p) i = Some v1 \<and> instances st2 (k2 # p) i = Some v2 \<and>
            (constructor r \<noteq> None \<longrightarrow> v1 \<noteq> v2)) \<and>
         (\<forall>v st'. get n c i st = Some (Inr (v, st')) \<and> truthy v \<longrightarrow>
            (\<forall>m. get m (fst (createScopedContainer c st')) i
                    (snd (createScopedContainer c st')) =
                  Some (Inr (v, snd (createScopedContainer c st')))))"
proof (intro conjI impI allI)
  assume res: "resolvable (registrations st) n i"
  from get_total [OF res, of "k1 # p"] obtain v1 st1 where
    g1: "get n (k1 # p) i st = Some (Inr (v1, st1))" by blast
  then have "registrations st1 = registrations st"
    using endsD_returned [OF get_frame g1] by (simp add: frame_registrations)
  with res get_total [of st1 n i "k2 # p"] obtain v2 st2 where
    "get n (k2 # p) i st1 = Some (Inr (v2, st2))" by auto
  with g1 show "\<exists>v1 st1 v2 st2. get n (k1 # p) i st = Some (Inr (v1, st1)) \<and>
      get n (k2 # p) i st1 = Some (Inr (v2, st2))"
    by blast
next
  fix v1 st1 v2 st2 m
  assume h: "k1 \<noteq> k2 \<and>
            \<not> truthy (getScopedInstance (k1 # p) i st) \<and>
            \<not> truthy (getScopedInstance (k2 # p) i st) \<and>
            get n (k1 # p) i st = Some (Inr (v1, st1)) \<and>
            get m (k2 # p) i st1 = Some (Inr (v2, st2))"
  from h have g1: "get n (k1 # p) i st = Some (Inr (v1, st1))"
    and g2: "get m (k2 # p) i st1 = Some (Inr (v2, st2))" by auto
  from g1 have f1: "frame (k1 # p) st st1" by (rule get_returns_frame)
  from g2 have f2: "frame (k2 # p) st1 st2" by (rule get_returns_frame)
  from f1 r have r1: "map_of (registrations st1) i = Some r"
    by (simp add: frame_registrations)
  have "getScopedInstance (k2 # p) i st1 = getScopedInstance (k2 # p) i st"
  proof (rule getScopedInstance_cong)
    fix c
    assume "c \<in> set (chain (k2 # p))"
    with h have "c \<noteq> k1 # p" by auto
    with f1 r l show "instances st1 c i = instances st c i"
      by (intro frame_entry [where r = r]) auto
  qed
  with h have miss2: "\<not> truthy (getScopedInstance (k2 # p) i st1)" by simp
  from scoped_construction_cached_here [OF r l _ g1] h
  have "instances st1 (k1 # p) i = Some v1" by simp
  moreover from f2 r1 l h have "instances st2 (k1 # p) i = instances st1 (k1 # p) i"
    by (intro frame_entry [where r = r]) auto
  ultimately show "instances st2 (k1 # p) i = Some v1" by simp
  from scoped_construction_cached_here [OF r1 l miss2 g2]
  show "instances st2 (k2 # p) i = Some v2" .
  assume "constructor r \<noteq> None"
  then obtain k where k: "constructor r = Some k" by auto
  from constructed_is_fresh [OF r k _ g1] h obtain a1 where
    a1: "v1 = Obj a1" "a1 < length (heap st1)" by auto
  from constructed_is_fresh [OF r1 k _ g2] miss2 obtain a2 where
    a2: "v2 = Obj a2" "length (heap st1) \<le> a2" by auto
  from a1 a2 show "v1 \<noteq> v2" by auto
next
  fix v st' m
  assume h: "get n c i st = Some (Inr (v, st')) \<and> truthy v"
  let ?ch = "fst (createScopedContainer c st')"
  let ?st = "snd (createScopedContainer c st')"
  from h have here: "getScopedInstance c i st' = v"
    using scoped_get_cached_here [OF r l] by blast
  have "getScopedInstance c i ?st = getScopedInstance c i st'"
    by (rule getScopedInstance_cong) auto
  with here h have "getScopedInstance ?ch i ?st = v"
    by (simp add: cached_def Let_def)
  moreover from h r have "map_of (registrations ?st) i = Some r"
    by (auto dest!: get_returns_frame simp: frame_registrations)
  ultimately show "get m ?ch i ?st = Some (Inr (v, ?st))"
    using get_hit [of ?st i r ?ch m] l h by simp
qed

theorem scoped_instances_belong_to_their_node_witness:
  "resolvable (registrations requestTree) 0 (Class ''Request'') \<and>
   get 0 [1] (Class ''Request'') requestTree = Some (Inr (Obj 0, requestResolved1)) \<and>
   get 0 [2] (Class ''Request'') requestResolved1 = Some (Inr (Obj 1, requestResolved2)) \<and>
   Obj 0 \<noteq> Obj 1 \<and>
   instances requestResolved2 [1] (Class ''Request'') = Some (Obj 0) \<and>
   instances requestResolved2 [2] (Class ''Request'') = Some (Obj 1) \<and>
   fst (createScopedContainer [1] requestResolved1) = [3, 1] \<and>
   get 0 [3, 1] (Class ''Request'') (snd (createScopedContainer [1] requestResolved1)) =
     Some (Inr (Obj 0, snd (createScopedContainer [1] requestResolved1)))"
proof -
  let ?r = "useClass ''Request'' scoped []"
  have 1: "lifetime ?r = scoped" "constructor ?r \<noteq> None"
    by (simp_all add: useClass_def)
  have 2: "\<not> truthy (getScopedInstance [1] (Class ''Request'') requestTree)"
    "\<not> truthy (getScopedInstance [2] (Class ''Request'') requestTree)"
    by (simp_all add: requestTree_def getScopedInstance_falsy)
  have 3: "(1::nat) \<noteq> 2" "truthy (Obj 0)" by simp_all
  have 4: "fst (createScopedContainer [1] requestResolved1) = [3, 1]"
    by (simp add: requestResolved1_def requestTree_def)
  have 5: "resolvable (registrations requestTree) 0 (Class ''Request'')"
    by (simp add: resolvableWith_def map_of_requestTree)
      (simp add: useClass_def collectionIds_def)
  note T = scoped_instances_belong_to_their_node [OF map_of_requestTree 1(1),
      of 0 1 "[]" 2 "[1]"]
  from T have "(1::nat) \<noteq> 2 \<and>
      \<not> truthy (getScopedInstance [1] (Class ''Request'') requestTree) \<and>
      \<not> truthy (getScopedInstance [2] (Class ''Request'') requestTree) \<and>
      get 0 [1] (Class ''Request'') requestTree = Some (Inr (Obj 0, requestResolved1)) \<and>
      get 0 [2] (Class ''Request'') requestResolved1 = Some (Inr (Obj 1, requestResolved2)) \<longrightarrow>
      instances requestResolved2 [1] (Class ''Request'') = Some (Obj 0) \<and>
      instances requestResolved2 [2] (Class ''Request'') = Some (Obj 1) \<and>
      (constructor ?r \<noteq> None \<longrightarrow> Obj 0 \<noteq> Obj 1)"
    by blast
  with 1 2 3 requestTree_get [of 0] requestResolved1_get [of 0]
  have A: "instances requestResolved2 [1] (Class ''Request'') = Some (Obj 0) \<and>
      instances requestResolved2 [2] (Class ''Request'') = Some (Obj 1)"
    by simp
  from T have "get 0 [1] (Class ''Request'') requestTree = Some (Inr (Obj 0, requestResolved1)) \<and>
      truthy (Obj 0) \<longrightarrow>
      (\<forall>m. get m (fst (createScopedContainer [1] requestResolved1)) (Class ''Request'')
              (snd (createScopedContainer [1] requestResolved1)) =
            Some (Inr (Obj 0, snd (createScopedContainer [1] requestResolved1))))"
    by blast
  with requestTree_get [of 0] 4
  have B: "get 0 [3, 1] (Class ''Request'') (snd (createScopedContainer [1] requestResolved1)) =
     Some (Inr (Obj 0, snd (createScopedContainer [1] requestResolved1)))"
    by (simp del: createScopedContainer_fields)
  from A B 4 5 requestTree_get [of 0] requestResolved1_get [of 0]
  show ?thesis by (simp del: createScopedContainer_fields)
qed

text \<open>
  Claim C6 as stated fails: once the root has resolved the scoped \<open>Request\<close>, the sibling
  scopes \<open>[1]\<close> and \<open>[2]\<close> both receive the instance of the root.
\<close>

theorem siblings_share_what_the_root_resolved:
  "map_of (registrations requestTree) (Class ''Request'') =
     Some (useClass ''Request'' scoped []) \<and>
   returned rootThenSiblings = Some [Obj 0, Obj 0, Obj 0]"
  by (simp add: map_of_requestTree rootThenSiblings_def root_get_request inherited_request
      returned_def ok_def)

subsection \<open>Transient instances\<close>

lemma transient_entry_unchanged:
  assumes "frame c st st'" "map_of (registrations st) i = Some r" "lifetime r = transient"
  shows "instances st' c' i = instances st c' i"
  using assms by (intro frame_entry [where r = r]) auto

lemma getTimes_transient:
  assumes r: "map_of (registrations st) i = Some r" and l: "lifetime r = transient"
    and k: "constructor r = Some c"
    and g: "getTimes n k this i st = Some (Inr (vs, st'))"
  shows "length vs = k \<and> frame this st st' \<and> distinct vs \<and>
         (\<forall>x \<in> set vs. \<exists>a. x = Obj a \<and> length (heap st) \<le> a \<and> a < length (heap st')) \<and>
         length (heap st) + k \<le> length (heap st')"
  using r g
proof (induction k arbitrary: st vs)
  case 0
  then show ?case by simp
next
  case (Suc k)
  from Suc.prems(2) obtain v st1 ws where
    g1: "get n this i st = Some (Inr (v, st1))" and
    g2: "getTimes n k this i st1 = Some (Inr (ws, st'))" and
    vs: "vs = v # ws"
    by (auto simp: andThen_returns)
  from g1 have f1: "frame this st st1" by (rule get_returns_frame)
  with Suc.prems(1) have r1: "map_of (registrations st1) i = Some r"
    by (simp add: frame_registrations)
  from Suc.IH [OF r1 g2] have
    len: "length ws = k" and f2: "frame this st1 st'" and d: "distinct ws" and
    fresh: "\<forall>x \<in> set ws. \<exists>a. x = Obj a \<and> length (heap st1) \<le> a \<and> a < length (heap st')" and
    grow: "length (heap st1) + k \<le> length (heap st')"
    by auto
  from constructed_is_fresh [OF Suc.prems(1) k _ g1] l obtain a where
    a: "v = Obj a" "length (heap st) \<le> a" "a < length (heap st1)" by auto
  from a fresh have "v \<notin> set ws" by auto
  moreover from f1 f2 have "frame this st st'" by (rule frame_trans)
  moreover from a fresh grow have
    "\<forall>x \<in> set (v # ws). \<exists>a. x = Obj a \<and> length (heap st) \<le> a \<and> a < length (heap st')"
    by auto
  moreover from a grow have "length (heap st) + Suc k \<le> length (heap st')" by simp
  ultimately show ?case using vs len d by simp
qed

lemma get_transient_leaf:
  assumes "map_of (registrations st) i = Some r" "lifetime r = transient"
    "constructor r = Some c" "ctorDependencies r = []" "collectionDependencies r = None"
  shows "get n this i st = Some (Inr (Obj (length (heap st)), snd (construct c [] st)))"
  using assms
  by (simp add: get_miss createInstance_def instantiate_def populate_def remember_def
      case_prod_beta ok_def)

lemma getTimes_transient_leaf:
  assumes "map_of (registrations st) i = Some r" "lifetime r = transient"
    "constructor r = Some c" "ctorDependencies r = []" "collectionDependencies r = None"
  shows "\<exists>vs st'. getTimes n k this i st = Some (Inr (vs, st')) \<and>
           instances st' = instances st \<and> registrations st' = registrations st"
  using assms(1)
proof (induction k arbitrary: st)
  case 0
  then show ?case by (simp add: ok_def)
next
  case (Suc k)
  let ?st = "snd (construct c [] st)"
  from Suc.prems have "map_of (registrations ?st) i = Some r" by simp
  from Suc.IH [OF this] obtain vs st' where
    "getTimes n k this i ?st = Some (Inr (vs, st'))" "instances st' = instances st"
    "registrations st' = registrations st"
    by auto
  with get_transient_leaf [OF Suc.prems assms(2-5), of n this] show ?case
    by (simp add: ok_def)
qed

lemma getTimes_frame:
  "getTimes n k this i st = Some (Inr (vs, st')) \<Longrightarrow> length vs = k \<and> frame this st st'"
proof (induction k arbitrary: st vs)
  case 0
  then show ?case by simp
next
  case (Suc k)
  from Suc.prems obtain v st1 ws where
    g1: "get n this i st = Some (Inr (v, st1))" and
    g2: "getTimes n k this i st1 = Some (Inr (ws, st'))" and
    vs: "vs = v # ws"
    by (auto simp: andThen_returns)
  from g1 have "frame this st st1" by (rule get_returns_frame)
  with Suc.IH [OF g2] vs show ?case
    by (auto intro: frame_trans)
qed

text \<open>
  Claim C7, as amended. For a transient registration, \<open>k\<close> calls of \<open>get\<close> on a node
  return when the identifier is resolvable; when they return they yield \<open>k\<close> instances and
  leave the entry of the identifier as it was in the cache of every node, and, when the
  registration has a constructor, the instances are pairwise distinct objects and at
  least \<open>k\<close> objects were allocated. When such a registration has no dependencies, no
  cache changes at all.
\<close>

theorem transient_instances_are_fresh:
  assumes r: "map_of (registrations st) i = Some r" and l: "lifetime r = transient"
  shows "(resolvable (registrations st) n i \<longrightarrow>
            (\<exists>vs st'. getTimes n k this i st = Some (Inr (vs, st')))) \<and>
         (\<forall>vs st'. getTimes n k this i st = Some (Inr (vs, st')) \<longrightarrow>
            length vs = k \<and> (\<forall>c'. instances st' c' i = instances st c' i) \<and>
            (constructor r \<noteq> None \<longrightarrow>
               distinct vs \<and> length (heap st) + k \<le> length (heap st'))) \<and>
         (constructor r \<noteq> None \<and> ctorDependencies r = [] \<and>
          collectionDependencies r = None \<longrightarrow>
            (\<exists>vs st'. getTimes n k this i st = Some (Inr (vs, st')) \<and>
                      instances st' = instances st))"
proof (intro conjI allI impI)
  assume "resolvable (registrations st) n i"
  then show "\<exists>vs st'. getTimes n k this i st = Some (Inr (vs, st'))"
    by (rule getTimes_total)
next
  fix vs st'
  assume g: "getTimes n k this i st = Some (Inr (vs, st'))"
  from getTimes_frame [OF g] show "length vs = k" by simp
  {
    fix c'
    from getTimes_frame [OF g] have "frame this st st'" by simp
    then show "instances st' c' i = instances st c' i"
      using r l by (rule transient_entry_unchanged)
  }
  assume "constructor r \<noteq> None"
  then obtain c where c: "constructor r = Some c" by auto
  from getTimes_transient [OF r l c g]
  show "distinct vs" "length (heap st) + k \<le> length (heap st')"
    by auto
next
  assume "constructor r \<noteq> None \<and> ctorDependencies r = [] \<and>
          collectionDependencies r = None"
  then obtain c where "constructor r = Some c" "ctorDependencies r = []"
    "collectionDependencies r = None" by auto
  from getTimes_transient_leaf [OF r l this, of n k this]
  show "\<exists>vs st'. getTimes n k this i st = Some (Inr (vs, st')) \<and> instances st' = instances st"
    by auto
qed

text \<open>
  Claim C7 as stated fails: \<open>Handler\<close> is transient and needs the singleton \<open>Logger\<close>; one
  \<open>get\<close> of \<open>Handler\<close> on the root puts \<open>Logger\<close> into the cache of the root.
\<close>

theorem transient_get_fills_the_cache_of_the_root:
  "map_of (registrations handlerTree) (Class ''Handler'') =
     Some (useClass ''Handler'' transient [Class ''Logger'']) \<and>
   instances handlerTree [] (Class ''Logger'') = None \<and>
   cachedAfter (get 1 [] (Class ''Handler'') handlerTree) [] (Class ''Logger'') =
     Some (Some (Obj 0))"
  using handlerTree_get [of 0]
  by (simp add: map_of_handlerTree stateAfter_def cachedAfter_def)
    (simp add: handlerTree_def loggerResolved_def)

theorem transient_instances_are_fresh_witness:
  "resolvable (registrations handlerTree) 1 (Class ''Handler'') \<and>
   getTimes 1 2 [] (Class ''Handler'') handlerTree =
     Some (Inr ([Obj 1, Obj 2], handlerResolved2)) \<and>
   distinct [Obj 1, Obj 2] \<and>
   length (heap handlerTree) + 2 \<le> length (heap handlerResolved2) \<and>
   instances handlerResolved2 [] (Class ''Handler'') = None \<and>
   (\<exists>vs st'. getTimes 0 3 [] (Class ''Token'') handlerTree = Some (Inr (vs, st')) \<and>
             instances st' = instances handlerTree)"
proof -
  have 1: "getTimes 1 2 [] (Class ''Handler'') handlerTree =
     Some (Inr ([Obj 1, Obj 2], handlerResolved2))"
    using handlerTree_get [of 0] handlerResolved1_get [of 0]
    by (simp add: numeral_2_eq_2 handlerResolved1_def ok_def)
  have 2: "lifetime (useClass ''Handler'' transient [Class ''Logger'']) = transient"
    "constructor (useClass ''Handler'' transient [Class ''Logger'']) \<noteq> None"
    "lifetime (useClass ''Token'' transient []) = transient"
    "constructor (useClass ''Token'' transient []) \<noteq> None"
    "ctorDependencies (useClass ''Token'' transient []) = []"
    "collectionDependencies (useClass ''Token'' transient []) = None"
    by (simp_all add: useClass_def)
  have 3: "instances handlerTree [] (Class ''Handler'') = None"
    by (simp add: handlerTree_def)
  have 4: "resolvable (registrations handlerTree) 1 (Class ''Handler'')"
    by (simp add: resolvableWith_def map_of_handlerTree)
      (simp add: useClass_def collectionIds_def resolvableWith_def map_of_handlerTree)
  note T = transient_instances_are_fresh [OF map_of_handlerTree(2) 2(1), of 1 2 "[]"]
  from T 2(2) have "getTimes 1 2 [] (Class ''Handler'') handlerTree =
        Some (Inr ([Obj 1, Obj 2], handlerResolved2)) \<longrightarrow>
      distinct [Obj 1, Obj 2] \<and>
      length (heap handlerTree) + 2 \<le> length (heap handlerResolved2) \<and>
      (\<forall>c'. instances handlerResolved2 c' (Class ''Handler'') =
            instances handlerTree c' (Class ''Handler''))"
    by blast
  with 1 3 have A: "length (heap handlerTree) + 2 \<le> length (heap handlerResolved2) \<and>
      instances handlerResolved2 [] (Class ''Handler'') = None"
    by simp
  from transient_instances_are_fresh [OF map_of_handlerTree(3) 2(3), of 0 3 "[]"] 2(4,5,6)
  have B: "\<exists>vs st'. getTimes 0 3 [] (Class ''Token'') handlerTree = Some (Inr (vs, st')) \<and>
             instances st' = instances handlerTree"
    by blast
  from 1 4 A B show ?thesis by simp
qed

end
